theory Spec2Isabelle
  imports Complex_Main
begin

unbundle bit_operations_syntax

section \<open>im2scr: conversion of indexed pictures to the ZX Spectrum screen format\<close>

text \<open>
  A shallow embedding of \<^verbatim>\<open>src/im2scr.py\<close>. Python's unbounded integers are
  \<^typ>\<open>int\<close>; sizes, coordinates, buffer offsets and pixel values (palette indices, which
  PIL delivers as unsigned bytes) are \<^typ>\<open>nat\<close>. Every \<^verbatim>\<open>raise\<close> of the source and every
  failing list, dictionary or bytearray access is a value of the type \<open>exn\<close>.
\<close>

subsection \<open>Exceptions\<close>

datatype exn =
    ZXException string
  | ValueError string
  | IndexError
  | KeyError
  | UnboundLocalError

subsection \<open>The picture as PIL hands it over\<close>

text \<open>
  The four things the conversion asks of a \<^verbatim>\<open>PIL.Image\<close>: \<^verbatim>\<open>im.mode\<close>, \<^verbatim>\<open>im.size\<close>,
  \<^verbatim>\<open>im.getpalette()\<close> (a flat list R, G, B, R, G, B, ...), \<^verbatim>\<open>im.histogram()\<close> and the
  pixel access object of \<^verbatim>\<open>im.load()\<close>. The pixel access object is a store from
  coordinates to palette indices; the conversion reads and writes it only at coordinates
  inside \<^verbatim>\<open>im.size\<close>, every loop of the source being bounded by it.
\<close>

type_synonym pixbuf = "nat \<times> nat \<Rightarrow> nat"

record image =
  im_mode :: string
  im_size :: "nat \<times> nat"
  im_getpalette :: "int list"
  im_histogram :: "nat list"
  im_load :: pixbuf

subsection \<open>The state of a \<^verbatim>\<open>zx\<close> object\<close>

text \<open>
  The fields of the object that the conversion writes and the getters and \<^verbatim>\<open>saveZX\<close>
  read. \<^verbatim>\<open>_mid\<close> and \<^verbatim>\<open>_hgh\<close> are passed to \<^verbatim>\<open>verifyrgb\<close> as arguments instead;
  \<^verbatim>\<open>_linear\<close> and \<^verbatim>\<open>_modulo\<close> are never read by the source.
\<close>

record zx =
  zx_scr :: "int list"
  zx_attr :: "int list"
  zx_scrSize :: nat
  zx_attrSize :: nat
  zx_w :: nat
  zx_h :: nat
  zx_preferbright :: "bool option"

definition BLACKTRESH :: int where "BLACKTRESH = 100"
definition MAXW :: nat where "MAXW = 256"
definition MAXH :: nat where "MAXH = 192"

subsection \<open>The scanline permutation\<close>

text \<open>
  \<^verbatim>\<open>return y & 0xc0 | hh >> 3 | hl << 3\<close>: in Python the shifts bind tighter than
  \<^verbatim>\<open>&\<close>, which binds tighter than \<^verbatim>\<open>|\<close>.
\<close>

definition y2zx :: "int \<Rightarrow> int" where
  "y2zx y =
     (let hh = y AND 0x38;
          hl = y AND 0x07
      in ((y AND 0xc0) OR drop_bit 3 hh) OR push_bit 3 hl)"

subsection \<open>Palette classification\<close>

definition palette :: "int list" where
  "palette = [0x00, 0x01, 0x04, 0x05, 0x02, 0x03, 0x06, 0x07]"

text \<open>
  The first half of \<^verbatim>\<open>verifyrgb\<close>: the dim candidate \<open>c\<close> and the bright candidate
  \<open>cb\<close>. \<^verbatim>\<open>self._mid\<close> is the float \<^verbatim>\<open>0.85 * self._hgh\<close>; it is modelled by the exact
  real number, and the comparison of the two distances is the exact one.
\<close>

definition candidates :: "real \<Rightarrow> int \<Rightarrow> int \<Rightarrow> int \<Rightarrow> int \<Rightarrow> int \<times> int" where
  "candidates mid hgh r g b =
     (let c = 0; cb = 0;
          (c, cb) = (if r \<ge> BLACKTRESH
                     then (if \<bar>of_int r - mid\<bar> < \<bar>of_int r - of_int hgh\<bar> then (4, cb) else (c, 4))
                     else (c, cb));
          (c, cb) = (if g \<ge> BLACKTRESH
                     then (if \<bar>of_int g - mid\<bar> < \<bar>of_int g - of_int hgh\<bar> then (c OR 2, cb) else (c, cb OR 2))
                     else (c, cb));
          (c, cb) = (if b \<ge> BLACKTRESH
                     then (if \<bar>of_int b - mid\<bar> < \<bar>of_int b - of_int hgh\<bar> then (c OR 1, cb) else (c, cb OR 1))
                     else (c, cb))
      in (c, cb))"

text \<open>The tail of \<^verbatim>\<open>verifyrgb\<close>, after the conflict check: the three \<^verbatim>\<open>return\<close>s.\<close>

definition attr_of :: "int \<Rightarrow> int \<Rightarrow> int" where
  "attr_of c cb =
     (if c = 0 \<and> cb = 0 then palette ! 0
      else if c \<noteq> 0 then palette ! nat c
      else (palette ! nat cb) OR 0x40)"

definition verifyrgb :: "bool option \<Rightarrow> real \<Rightarrow> int \<Rightarrow> int \<Rightarrow> int \<Rightarrow> int \<Rightarrow> exn + int" where
  "verifyrgb preferbright mid hgh r g b =
     (case candidates mid hgh r g b of (c, cb) \<Rightarrow>
        if c > 0 \<and> cb > 0 then
          (case preferbright of
             Some True \<Rightarrow> Inr (attr_of 0 (cb OR c))
           | Some False \<Rightarrow> Inr (attr_of (c OR cb) 0)
           | None \<Rightarrow> Inl (ZXException ''Palette conversion not successful''))
        else Inr (attr_of c cb))"

text \<open>
  \<^verbatim>\<open>pal2attr\<close>: the first loop finds the largest colour component of the first
  \<open>num\<close> palette entries, the second classifies each entry. Reading \<^verbatim>\<open>pal[i]\<close> beyond the
  end of the list raises \<^verbatim>\<open>IndexError\<close>.
\<close>

function largest :: "int list \<Rightarrow> nat \<Rightarrow> nat \<Rightarrow> int \<Rightarrow> exn + int" where
  "largest pal num i hgh =
     (if i < num * 3 then
        (if i < length pal
         then largest pal num (i + 1) (if pal ! i > hgh then pal ! i else hgh)
         else Inl IndexError)
      else Inr hgh)"
  by pat_completeness auto
termination
  by (relation "measure (\<lambda>(pal, num, i, hgh). num * 3 - i)") auto

declare largest.simps [simp del]

function classify :: "bool option \<Rightarrow> real \<Rightarrow> int \<Rightarrow> int list \<Rightarrow> nat \<Rightarrow> nat \<Rightarrow> int list
    \<Rightarrow> exn + int list" where
  "classify preferbright mid hgh pal num i outp =
     (if i < num then
        (if i * 3 + 2 < length pal then
           (case verifyrgb preferbright mid hgh (pal ! (i * 3 + 0)) (pal ! (i * 3 + 1)) (pal ! (i * 3 + 2)) of
              Inl e \<Rightarrow> Inl e
            | Inr a \<Rightarrow> classify preferbright mid hgh pal num (i + 1) (outp @ [a]))
         else Inl IndexError)
      else Inr outp)"
  by pat_completeness auto
termination
  by (relation "measure (\<lambda>(preferbright, mid, hgh, pal, num, i, outp). num - i)") auto

declare classify.simps [simp del]

definition pal2attr :: "bool option \<Rightarrow> int list \<Rightarrow> nat \<Rightarrow> exn + int list" where
  "pal2attr preferbright pal num =
     (case largest pal num 0 0 of
        Inl e \<Rightarrow> Inl e
      | Inr hgh \<Rightarrow> classify preferbright (0.85 * of_int hgh) hgh pal num 0 [])"

subsection \<open>Block colour selection\<close>

text \<open>
  The dictionary \<open>c\<close> of \<^verbatim>\<open>selectcolors\<close> is an association list with distinct keys, in
  the order in which the keys were first stored. \<^verbatim>\<open>sorted(c, key=c.get, reverse=True)\<close> is
  a stable sort by falling count, as \<open>sort_key\<close> with the negated count is. The order in
  which CPython walks the keys of a dictionary before sorting matters only between colours
  of equal count.
\<close>

type_synonym tally = "(nat \<times> nat) list"

definition bump :: "tally \<Rightarrow> nat \<Rightarrow> tally" where
  "bump c pixel =
     (case map_of c pixel of
        Some n \<Rightarrow> map (\<lambda>(k, v). if k = pixel then (k, n + 1) else (k, v)) c
      | None \<Rightarrow> c @ [(pixel, 1)])"

function tally_x :: "pixbuf \<Rightarrow> nat \<Rightarrow> nat \<Rightarrow> nat \<Rightarrow> tally \<Rightarrow> tally" where
  "tally_x buf y xend x c =
     (if x < xend then tally_x buf y xend (x + 1) (bump c (buf (x, y))) else c)"
  by pat_completeness auto
termination
  by (relation "measure (\<lambda>(buf, y, xend, x, c). xend - x)") auto

declare tally_x.simps [simp del]

function tally_y :: "pixbuf \<Rightarrow> nat \<Rightarrow> nat \<Rightarrow> nat \<Rightarrow> nat \<Rightarrow> tally \<Rightarrow> tally" where
  "tally_y buf stax w yend y c =
     (if y < yend then tally_y buf stax w yend (y + 1) (tally_x buf y (stax + w) stax c) else c)"
  by pat_completeness auto
termination
  by (relation "measure (\<lambda>(buf, stax, w, yend, y, c). yend - y)") auto

declare tally_y.simps [simp del]

definition pick :: "tally \<Rightarrow> nat \<times> nat" where
  "pick c =
     (let paper0 = map_of c 0;
          c = filter (\<lambda>(k, v). k \<noteq> 0) c;
          colors = map fst (sort_key (\<lambda>(k, v). - int v) c)
      in if length colors = 0 then (0, 0)
         else if paper0 = None then
           (if length colors = 1 then (colors ! 0, colors ! 0) else (colors ! 0, colors ! 1))
         else (0, colors ! 0))"

definition selectcolors :: "pixbuf \<Rightarrow> nat \<Rightarrow> nat \<Rightarrow> nat \<Rightarrow> nat \<Rightarrow> nat \<times> nat" where
  "selectcolors buf stax stay w h = pick (tally_y buf stax w (stay + h) stay [])"

subsection \<open>Background normalisation\<close>

definition swap_pixel :: "nat \<Rightarrow> nat \<times> nat \<Rightarrow> pixbuf \<Rightarrow> pixbuf" where
  "swap_pixel paper0 xy buf =
     (let pixel = buf xy
      in if pixel = paper0 then buf(xy := 0)
         else if pixel = 0 then buf(xy := paper0)
         else buf)"

definition swappaper0 :: "pixbuf \<Rightarrow> nat \<times> nat \<Rightarrow> int list \<Rightarrow> nat \<Rightarrow> exn + (pixbuf \<times> int list)" where
  "swappaper0 buf sz pal paper0 =
     (let buf = fold (\<lambda>y. fold (\<lambda>x. swap_pixel paper0 (x, y)) [0..<fst sz]) [0..<snd sz] buf
      in if paper0 < length pal
         then Inr (buf, (pal[0 := pal ! paper0])[paper0 := pal ! 0])
         else Inl IndexError)"

text \<open>\<^verbatim>\<open>apal.index(0)\<close>: the first position of the value, or \<^verbatim>\<open>ValueError\<close>.\<close>

definition index_of :: "int list \<Rightarrow> int \<Rightarrow> exn + nat" where
  "index_of xs v =
     (if v \<in> set xs then Inr (length (takeWhile (\<lambda>a. a \<noteq> v) xs))
      else Inl (ValueError ''0 is not in list''))"

text \<open>Lines 394 to 399 of \<^verbatim>\<open>im2scr\<close>.\<close>

definition normalise :: "pixbuf \<Rightarrow> nat \<times> nat \<Rightarrow> int list \<Rightarrow> exn + (pixbuf \<times> int list)" where
  "normalise buf sz apal =
     (case index_of apal 0 of
        Inl e \<Rightarrow> Inl e
      | Inr paper0 \<Rightarrow> if paper0 \<noteq> 0 then swappaper0 buf sz apal paper0 else Inr (buf, apal))"

subsection \<open>The colours of every cell\<close>

type_synonym cellmap = "nat \<times> nat \<rightharpoonup> nat \<times> nat"

function cells_x :: "pixbuf \<Rightarrow> nat \<times> nat \<Rightarrow> nat \<Rightarrow> nat \<Rightarrow> nat \<Rightarrow> cellmap \<Rightarrow> cellmap" where
  "cells_x buf sz y h x tmp =
     (if x < fst sz then
        (let w = (if x + 8 < fst sz then 8 else fst sz - x)
         in cells_x buf sz y h (x + 8) (tmp((drop_bit 3 x, drop_bit 3 y) \<mapsto> selectcolors buf x y w h)))
      else tmp)"
  by pat_completeness auto
termination
  by (relation "measure (\<lambda>(buf, sz, y, h, x, tmp). fst sz - x)") auto

declare cells_x.simps [simp del]

function cells_y :: "pixbuf \<Rightarrow> nat \<times> nat \<Rightarrow> nat \<Rightarrow> cellmap \<Rightarrow> cellmap" where
  "cells_y buf sz y tmp =
     (if y < snd sz then
        (let h = (if y + 8 < snd sz then 8 else snd sz - y)
         in cells_y buf sz (y + 8) (cells_x buf sz y h 0 tmp))
      else tmp)"
  by pat_completeness auto
termination
  by (relation "measure (\<lambda>(buf, sz, y, tmp). snd sz - y)") auto

declare cells_y.simps [simp del]

subsection \<open>Bitmap packing\<close>

text \<open>
  \<^verbatim>\<open>pixel and pixel != tmp[x >> 3, y >> 3][0]\<close>: the dictionary is read only when the
  pixel is not zero.
\<close>

definition is_ink :: "pixbuf \<Rightarrow> cellmap \<Rightarrow> nat \<Rightarrow> nat \<Rightarrow> exn + bool" where
  "is_ink buf tmp x y =
     (let pixel = buf (x, y)
      in if pixel \<noteq> 0 then
           (case tmp (drop_bit 3 x, drop_bit 3 y) of
              None \<Rightarrow> Inl KeyError
            | Some cs \<Rightarrow> Inr (pixel \<noteq> fst cs))
         else Inr False)"

text \<open>The body of the loop over \<open>x\<close>, lines 424 to 438, on the state \<open>(gfx, scr, index)\<close>.\<close>

definition pack_pixel :: "pixbuf \<Rightarrow> cellmap \<Rightarrow> nat \<Rightarrow> nat \<Rightarrow> int \<times> int list \<times> nat
    \<Rightarrow> exn + (int \<times> int list \<times> nat)" where
  "pack_pixel buf tmp y x s =
     (case s of (gfx, scr, index) \<Rightarrow>
        (let gfx = push_bit 1 gfx
         in case is_ink buf tmp x y of
              Inl e \<Rightarrow> Inl e
            | Inr ink \<Rightarrow>
                (let gfx = (if ink then gfx + 1 else gfx)
                 in if gfx AND 0x100 \<noteq> 0 then
                      (if index < length scr
                       then Inr (1, scr[index := gfx AND 0xff], index + 1)
                       else Inl IndexError)
                    else Inr (gfx, scr, index))))"

fun pack_x :: "pixbuf \<Rightarrow> cellmap \<Rightarrow> nat \<Rightarrow> nat list \<Rightarrow> int \<times> int list \<times> nat
    \<Rightarrow> exn + (int \<times> int list \<times> nat)" where
  "pack_x buf tmp y [] s = Inr s"
| "pack_x buf tmp y (x # xs) s =
     (case pack_pixel buf tmp y x s of
        Inl e \<Rightarrow> Inl e
      | Inr s \<Rightarrow> pack_x buf tmp y xs s)"

text \<open>
  \<^verbatim>\<open>while not gfx & 0x100: gfx = gfx << 1\<close> does not end for every integer (it runs for
  ever from 0), so the loop is a partial function: \<open>None\<close> is not returning.
\<close>

partial_function (option) pad :: "int \<Rightarrow> int option" where
  "pad gfx = (if gfx AND 0x100 = 0 then pad (push_bit 1 gfx) else Some gfx)"

declare pad.simps [code]

text \<open>The body of the loop over \<open>y\<close>, lines 421 to 446, on the state \<open>(scr, index)\<close>.\<close>

definition pack_row :: "pixbuf \<Rightarrow> cellmap \<Rightarrow> nat \<Rightarrow> nat \<Rightarrow> int list \<times> nat
    \<Rightarrow> (exn + (int list \<times> nat)) option" where
  "pack_row buf tmp w y s =
     (case s of (scr, index) \<Rightarrow>
        (case pack_x buf tmp y [0..<w] (1, scr, index) of
           Inl e \<Rightarrow> Some (Inl e)
         | Inr (gfx, scr, index) \<Rightarrow>
             if gfx > 1 then
               (case pad gfx of
                  None \<Rightarrow> None
                | Some gfx \<Rightarrow>
                    if index < length scr
                    then Some (Inr (scr[index := gfx AND 0xff], index + 1))
                    else Some (Inl IndexError))
             else Some (Inr (scr, index))))"

fun pack_y :: "pixbuf \<Rightarrow> cellmap \<Rightarrow> nat \<Rightarrow> nat list \<Rightarrow> int list \<times> nat
    \<Rightarrow> (exn + (int list \<times> nat)) option" where
  "pack_y buf tmp w [] s = Some (Inr s)"
| "pack_y buf tmp w (y # ys) s =
     (case pack_row buf tmp w y s of
        None \<Rightarrow> None
      | Some (Inl e) \<Rightarrow> Some (Inl e)
      | Some (Inr s) \<Rightarrow> pack_y buf tmp w ys s)"

subsection \<open>Attribute encoding\<close>

text \<open>Lines 467 to 474: the ink attribute after the BRIGHT check.\<close>

definition resolve :: "bool option \<Rightarrow> int \<Rightarrow> int \<Rightarrow> exn + int" where
  "resolve preferbright paper ink =
     (if paper \<noteq> 0 \<and> ink \<noteq> 0 then
        (if (paper XOR ink) AND 0x40 \<noteq> 0 then
           (case preferbright of
              Some True \<Rightarrow> Inr (ink OR 0x40)
            | Some False \<Rightarrow> Inr (ink AND NOT 0x40)
            | None \<Rightarrow> Inl (ZXException ''Color attribute has BRIGHT conflict''))
         else Inr ink)
      else Inr ink)"

definition attr_byte :: "bool option \<Rightarrow> int \<Rightarrow> int \<Rightarrow> exn + int" where
  "attr_byte preferbright paper ink =
     (case resolve preferbright paper ink of
        Inl e \<Rightarrow> Inl e
      | Inr ink \<Rightarrow> Inr ((ink OR push_bit 3 paper) AND 0xff))"

text \<open>The body of the loop over the cells of a row, lines 464 to 477, on \<open>(attr, index)\<close>.\<close>

definition attr_cell :: "bool option \<Rightarrow> int list \<Rightarrow> cellmap \<Rightarrow> nat \<Rightarrow> nat \<Rightarrow> int list \<times> nat
    \<Rightarrow> exn + (int list \<times> nat)" where
  "attr_cell preferbright apal tmp y x s =
     (case s of (attr, index) \<Rightarrow>
        (case tmp (x, y) of
           None \<Rightarrow> Inl KeyError
         | Some cs \<Rightarrow>
             if fst cs < length apal \<and> snd cs < length apal then
               (case attr_byte preferbright (apal ! fst cs) (apal ! snd cs) of
                  Inl e \<Rightarrow> Inl e
                | Inr v \<Rightarrow>
                    if index < length attr
                    then Inr (attr[index := v], index + 1)
                    else Inl IndexError)
             else Inl IndexError))"

fun attr_x :: "bool option \<Rightarrow> int list \<Rightarrow> cellmap \<Rightarrow> nat \<Rightarrow> nat list \<Rightarrow> int list \<times> nat
    \<Rightarrow> exn + (int list \<times> nat)" where
  "attr_x preferbright apal tmp y [] s = Inr s"
| "attr_x preferbright apal tmp y (x # xs) s =
     (case attr_cell preferbright apal tmp y x s of
        Inl e \<Rightarrow> Inl e
      | Inr s \<Rightarrow> attr_x preferbright apal tmp y xs s)"

fun attr_y :: "bool option \<Rightarrow> int list \<Rightarrow> cellmap \<Rightarrow> nat \<Rightarrow> nat list \<Rightarrow> int list \<times> nat
    \<Rightarrow> exn + (int list \<times> nat)" where
  "attr_y preferbright apal tmp w [] s = Inr s"
| "attr_y preferbright apal tmp w (y # ys) s =
     (case attr_x preferbright apal tmp y [0..<w] s of
        Inl e \<Rightarrow> Inl e
      | Inr s \<Rightarrow> attr_y preferbright apal tmp w ys s)"

subsection \<open>The conversion\<close>

text \<open>
  \<^verbatim>\<open>x >> 3 if x % 8 == 0 else (x >> 3) + 1\<close>, which lines 454 and 460 both compute.
\<close>

definition octets :: "nat \<Rightarrow> nat" where
  "octets x = (if x mod 8 = 0 then drop_bit 3 x else drop_bit 3 x + 1)"

text \<open>
  Lines 452 and 453 read the loop variables \<open>x\<close> and \<open>y\<close> after the loops. \<open>y\<close> is bound
  by line 403 and rebound by the \<^verbatim>\<open>for\<close> loop whenever the height is not zero. \<open>x\<close> is
  bound by line 408 only when the height is not zero; with a zero width the \<^verbatim>\<open>while\<close>
  loop of line 410 leaves it at 0 and the \<^verbatim>\<open>for\<close> loop of line 423 never rebinds it.
\<close>

definition last_x :: "nat \<times> nat \<Rightarrow> nat option" where
  "last_x sz = (if snd sz = 0 then None else if fst sz = 0 then Some 0 else Some (fst sz - 1))"

definition last_y :: "nat \<times> nat \<Rightarrow> nat" where
  "last_y sz = (if snd sz = 0 then 0 else snd sz - 1)"

definition im2scr :: "zx \<Rightarrow> image \<Rightarrow> (exn + zx) option" where
  "im2scr self im =
     (let pal = im_getpalette im;
          hist = im_histogram im;
          numcolors = length hist
      in if numcolors - count_list hist 0 > 16
         then Some (Inl (ZXException ''Picture uses more than 16 colors''))
         else
           (case pal2attr (zx_preferbright self) pal numcolors of
              Inl e \<Rightarrow> Some (Inl e)
            | Inr apal \<Rightarrow>
           (case normalise (im_load im) (im_size im) apal of
              Inl e \<Rightarrow> Some (Inl e)
            | Inr (buf, apal) \<Rightarrow>
           (let tmp = cells_y buf (im_size im) 0 Map.empty
            in case pack_y buf tmp (fst (im_size im)) [0..<snd (im_size im)] (zx_scr self, 0) of
                 None \<Rightarrow> None
               | Some (Inl e) \<Rightarrow> Some (Inl e)
               | Some (Inr (scr, index)) \<Rightarrow>
           (case last_x (im_size im) of
              None \<Rightarrow> Some (Inl UnboundLocalError)
            | Some x \<Rightarrow>
           (let x = x + 1;
                y = last_y (im_size im) + 1;
                w = octets x;
                h = y;
                y8 = octets h
            in case attr_y (zx_preferbright self) apal tmp w [0..<y8] (zx_attr self, 0) of
                 Inl e \<Rightarrow> Some (Inl e)
               | Inr (attr, index') \<Rightarrow>
                   Some (Inr (self\<lparr>zx_scr := scr, zx_scrSize := index, zx_w := w, zx_h := h,
                                  zx_attr := attr, zx_attrSize := index'\<rparr>))))))))"

text \<open>
  \<^verbatim>\<open>__init__\<close>: the check of the mode, the fresh buffers and fields, the checks of the
  size, the conversion.
\<close>

definition fresh :: "bool option \<Rightarrow> zx" where
  "fresh prefer = \<lparr>zx_scr = replicate (32 * 192) 0, zx_attr = replicate (32 * 24) 0,
                     zx_scrSize = 0, zx_attrSize = 0, zx_w = 0, zx_h = 0,
                     zx_preferbright = prefer\<rparr>"

definition zx_init :: "image \<Rightarrow> bool option \<Rightarrow> (exn + zx) option" where
  "zx_init im prefer =
     (if im_mode im \<notin> set [''P'', ''L'', ''1'']
      then Some (Inl (ValueError ''Image object in a wrong format''))
      else
        (let self = fresh prefer
         in if fst (im_size im) > MAXW then Some (Inl (ValueError ''Image width greater than 256''))
            else if snd (im_size im) > MAXH then Some (Inl (ValueError ''Image height greater than 192''))
            else im2scr self im))"

subsection \<open>Getters and saving\<close>

text \<open>
  Python 2's \<^verbatim>\<open>buffer(obj, offset, size)\<close> is the slice of at most \<open>size\<close> bytes from
  \<open>offset\<close>, cut at the end of the object.
\<close>

definition buffer :: "int list \<Rightarrow> nat \<Rightarrow> nat \<Rightarrow> int list" where
  "buffer b offset n = take n (drop offset b)"

definition getAttr :: "zx \<Rightarrow> int list" where
  "getAttr self = buffer (zx_attr self) 0 (zx_attrSize self)"

definition getScr :: "zx \<Rightarrow> int list" where
  "getScr self = buffer (zx_scr self) 0 (zx_scrSize self)"

definition getScrSize :: "zx \<Rightarrow> nat" where
  "getScrSize self = zx_scrSize self"

definition getAttrSize :: "zx \<Rightarrow> nat" where
  "getAttrSize self = zx_attrSize self"

function save_rows :: "zx \<Rightarrow> nat \<Rightarrow> int list \<Rightarrow> int list" where
  "save_rows self y f =
     (if y < zx_h self then
        (let y2 = nat (y2zx (int y))
         in save_rows self (y + 1) (f @ buffer (zx_scr self) (y2 * zx_w self) (zx_w self)))
      else f)"
  by pat_completeness auto
termination
  by (relation "measure (\<lambda>(self, y, f). zx_h self - y)") auto

declare save_rows.simps [simp del]

text \<open>
  \<^verbatim>\<open>saveZX\<close> returns the bytes written to the file, which \<^verbatim>\<open>open(name, "w")\<close> has
  emptied, and the exception that ended it, if any.
\<close>

definition saveZX :: "zx \<Rightarrow> bool \<Rightarrow> bool \<Rightarrow> int list \<times> exn option" where
  "saveZX self attrs lin =
     (let f = []
      in case (if lin then Inr (f @ buffer (zx_scr self) 0 (zx_scrSize self))
               else if zx_h self mod 64 \<noteq> 0
               then Inl (ZXException ''Cannot save an image because height is not mod 64'')
               else Inr (save_rows self 0 f)) of
           Inl e \<Rightarrow> (f, Some e)
         | Inr f \<Rightarrow> (if attrs then f @ buffer (zx_attr self) 0 (zx_attrSize self) else f, None))"

subsection \<open>Notions used to state the properties\<close>

text \<open>The value that \<^verbatim>\<open>swappaper0\<close> leaves at a pixel that held \<open>v\<close>.\<close>

definition swapped :: "nat \<Rightarrow> nat \<Rightarrow> nat" where
  "swapped p v = (if v = p then 0 else if v = 0 then p else v)"

subsection \<open>Concrete pictures\<close>

text \<open>One white pixel: a palette with no black entry.\<close>

definition white1 :: image where
  "white1 = \<lparr>im_mode = ''P'', im_size = (1, 1), im_getpalette = [255, 255, 255],
     im_histogram = [1], im_load = (\<lambda>xy. 0)\<rparr>"

definition bits_val :: "bool list \<Rightarrow> int" where
  "bits_val bs = foldl (\<lambda>a b. 2 * a + of_bool b) 0 bs"

definition enc :: "bool list \<Rightarrow> int" where
  "enc p = 2 ^ length p + bits_val p"

definition store_at :: "int list \<Rightarrow> nat \<Rightarrow> int list \<Rightarrow> int list" where
  "store_at scr index vs = take index scr @ vs @ drop (index + length vs) scr"

definition full_bytes :: "bool list \<Rightarrow> int list" where
  "full_bytes bs = map (\<lambda>j. bits_val (take 8 (drop (8 * j) bs))) [0..<length bs div 8]"

definition row_bytes :: "bool list \<Rightarrow> int list" where
  "row_bytes bs =
     map (\<lambda>j. bits_val (take 8 (drop (8 * j) (bs @ replicate 7 False)))) [0..<(length bs + 7) div 8]"

definition ink_bits :: "pixbuf \<Rightarrow> cellmap \<Rightarrow> nat \<Rightarrow> nat \<Rightarrow> bool list" where
  "ink_bits buf tmp w y = map (\<lambda>x. case is_ink buf tmp x y of Inr b \<Rightarrow> b | Inl e \<Rightarrow> False) [0..<w]"

definition cell_w :: "nat \<Rightarrow> nat \<Rightarrow> nat" where
  "cell_w n x = (if x + 8 < n then 8 else n - x)"

definition cell_colors :: "pixbuf \<Rightarrow> nat \<times> nat \<Rightarrow> nat \<times> nat \<Rightarrow> nat \<times> nat" where
  "cell_colors buf sz k =
     selectcolors buf (8 * fst k) (8 * snd k) (cell_w (fst sz) (8 * fst k)) (cell_w (snd sz) (8 * snd k))"

definition cell_attr :: "bool option \<Rightarrow> int list \<Rightarrow> cellmap \<Rightarrow> nat \<Rightarrow> nat \<Rightarrow> exn + int" where
  "cell_attr preferbright apal tmp y x =
     (case tmp (x, y) of
        None \<Rightarrow> Inl KeyError
      | Some cs \<Rightarrow>
          if fst cs < length apal \<and> snd cs < length apal
          then attr_byte preferbright (apal ! fst cs) (apal ! snd cs)
          else Inl IndexError)"

definition byte_of :: "exn + int \<Rightarrow> int" where
  "byte_of r = (case r of Inr v \<Rightarrow> v | Inl e \<Rightarrow> 0)"

definition attr_row :: "bool option \<Rightarrow> int list \<Rightarrow> cellmap \<Rightarrow> nat \<Rightarrow> nat \<Rightarrow> int list" where
  "attr_row preferbright apal tmp w y = map (\<lambda>x. byte_of (cell_attr preferbright apal tmp y x)) [0..<w]"

definition bitmap_of :: "pixbuf \<Rightarrow> nat \<times> nat \<Rightarrow> int list" where
  "bitmap_of buf sz =
     concat (map (\<lambda>y. row_bytes (ink_bits buf (cells_y buf sz 0 Map.empty) (fst sz) y)) [0..<snd sz])"

definition attrs_of :: "bool option \<Rightarrow> int list \<Rightarrow> pixbuf \<Rightarrow> nat \<times> nat \<Rightarrow> int list" where
  "attrs_of preferbright apal buf sz =
     concat (map (attr_row preferbright apal (cells_y buf sz 0 Map.empty) ((fst sz + 7) div 8))
                 [0..<(snd sz + 7) div 8])"

definition cell_pixels :: "pixbuf \<Rightarrow> nat \<Rightarrow> nat \<Rightarrow> nat \<Rightarrow> nat \<Rightarrow> nat list" where
  "cell_pixels buf stax stay w h =
     concat (map (\<lambda>y. map (\<lambda>x. buf (x, y)) [stax..<stax + w]) [stay..<stay + h])"

definition counted :: "nat list \<Rightarrow> tally \<Rightarrow> bool" where
  "counted ps c \<longleftrightarrow> distinct (map fst c) \<and> set c = (\<lambda>k. (k, count_list ps k)) ` set ps"

definition nonzero_colors :: "nat list \<Rightarrow> nat set" where
  "nonzero_colors ps = set (filter (\<lambda>k. k \<noteq> 0) ps)"

definition most_frequent :: "nat list \<Rightarrow> nat set \<Rightarrow> nat \<Rightarrow> bool" where
  "most_frequent ps S m \<longleftrightarrow> m \<in> S \<and> (\<forall>k\<in>S. count_list ps k \<le> count_list ps m)"

definition corner :: pixbuf where
  "corner = (\<lambda>(x, y). if x = 1 \<and> y = 1 then 2 else 1)"

section \<open>Properties\<close>

subsection \<open>The scanline permutation\<close>

lemma y2zx_table:
  "\<forall>y \<in> set [0..191]. y2zx (y2zx y) = y \<and> 0 \<le> y2zx y \<and> y2zx y < 192
     \<and> y2zx y AND 0xc0 = y AND 0xc0
     \<and> drop_bit 3 (y2zx y) AND 7 = y AND 7
     \<and> y2zx y AND 7 = drop_bit 3 y AND 7"
  by code_simp

lemma y2zx_row:
  assumes "0 \<le> y" "y < 192"
  shows "y2zx (y2zx y) = y" "0 \<le> y2zx y" "y2zx y < 192"
    "y2zx y AND 0xc0 = y AND 0xc0"
    "drop_bit 3 (y2zx y) AND 7 = y AND 7"
    "y2zx y AND 7 = drop_bit 3 y AND 7"
  using y2zx_table assms by (simp_all add: Ball_def)

text \<open>
  C4: for every row index \<open>y\<close> from 0 to 191, \<open>y2zx\<close> keeps bits 6 and 7, moves the field of
  bits 0 to 2 to bits 3 to 5 and the field of bits 3 to 5 to bits 0 to 2, and applied
  twice gives \<open>y\<close> back; it is a bijection of the row indices 0 to 191 onto themselves.
\<close>

theorem y2zx_swaps_fields_bijection:
  "(\<forall>y. 0 \<le> y \<and> y < 192 \<longrightarrow>
      y2zx y AND 0xc0 = y AND 0xc0
      \<and> drop_bit 3 (y2zx y) AND 7 = y AND 7
      \<and> y2zx y AND 7 = drop_bit 3 y AND 7
      \<and> y2zx (y2zx y) = y)
   \<and> bij_betw y2zx {0..<192} {0..<192}"
proof -
  have "bij_betw y2zx {0..<192} {0..<192}"
    by (rule bij_betw_byWitness[where f' = y2zx]) (auto simp add: y2zx_row)
  then show ?thesis by (simp add: y2zx_row)
qed

theorem y2zx_swaps_fields_bijection_witness:
  "y2zx 81 = 74 \<and> y2zx 74 = 81 \<and> y2zx (y2zx 81) = 81 \<and> y2zx 81 AND 0xc0 = 64"
proof -
  have h: "(0::int) \<le> 81 \<and> (81::int) < 192" by simp
  have "y2zx (y2zx 81) = 81 \<and> y2zx 81 AND 0xc0 = 81 AND 0xc0"
    using y2zx_swaps_fields_bijection h by blast
  moreover have "y2zx 81 = 74" by (simp add: y2zx_def)
  ultimately show ?thesis by simp
qed

subsection \<open>Classification of one palette entry\<close>

text \<open>
  The entry R=215, G=0, B=0 with the largest component 255 does not classify to the
  attribute 4.
\<close>

theorem verifyrgb_dim_red_is_not_4:
  "verifyrgb None (0.85 * 255) 255 215 0 0 \<noteq> Inr 4"
  by (simp add: verifyrgb_def candidates_def attr_of_def palette_def BLACKTRESH_def)

text \<open>
  C8, as the code has it: for R=215, G=0, B=0, threshold 100 and largest component 255
  (so \<open>mid\<close> is 216.75, at distance 1.75 from 215, against 40 to 255) the dim candidate is
  the code 4 and the bright candidate is 0; the returned attribute is \<open>palette ! 4\<close>, the
  ZX Spectrum colour number 2 of red, with BRIGHT clear. The same through \<open>pal2attr\<close> on a
  palette of this entry and white.
\<close>

theorem verifyrgb_dim_red:
  "\<bar>215 - 0.85 * 255\<bar> = (1.75 :: real)
   \<and> candidates (0.85 * 255) 255 215 0 0 = (4, 0)
   \<and> palette ! 4 = 2
   \<and> verifyrgb preferbright (0.85 * 255) 255 215 0 0 = Inr 2
   \<and> pal2attr preferbright [215, 0, 0, 255, 255, 255] 2 = Inr [2, 0x47]"
  by (simp add: pal2attr_def largest.simps classify.simps verifyrgb_def candidates_def
      attr_of_def palette_def BLACKTRESH_def)

subsection \<open>Background normalisation\<close>

lemma swapped_twice: "swapped p (swapped p v) = v"
  by (simp add: swapped_def)

lemma swap_pixel_eq: "swap_pixel p xy buf = buf(xy := swapped p (buf xy))"
  by (auto simp add: swap_pixel_def swapped_def Let_def fun_eq_iff)

lemma fold_swap_row:
  "fold (\<lambda>x. swap_pixel p (x, y)) [0..<w] buf =
     (\<lambda>(x', y'). if y' = y \<and> x' < w then swapped p (buf (x', y')) else buf (x', y'))"
proof (induction w)
  case 0
  show ?case by (simp add: fun_eq_iff)
next
  case (Suc w)
  have "fold (\<lambda>x. swap_pixel p (x, y)) [0..<Suc w] buf =
      swap_pixel p (w, y) (fold (\<lambda>x. swap_pixel p (x, y)) [0..<w] buf)"
    by simp
  also have "\<dots> = (\<lambda>(x', y'). if y' = y \<and> x' < Suc w then swapped p (buf (x', y')) else buf (x', y'))"
    unfolding Suc by (auto simp add: swap_pixel_eq fun_eq_iff)
  finally show ?case .
qed

lemma fold_swap_rows:
  "fold (\<lambda>y. fold (\<lambda>x. swap_pixel p (x, y)) [0..<w]) [0..<h] buf =
     (\<lambda>(x', y'). if x' < w \<and> y' < h then swapped p (buf (x', y')) else buf (x', y'))"
proof (induction h)
  case 0
  show ?case by (simp add: fun_eq_iff)
next
  case (Suc h)
  have "fold (\<lambda>y. fold (\<lambda>x. swap_pixel p (x, y)) [0..<w]) [0..<Suc h] buf =
      fold (\<lambda>x. swap_pixel p (x, h)) [0..<w] (fold (\<lambda>y. fold (\<lambda>x. swap_pixel p (x, y)) [0..<w]) [0..<h] buf)"
    by simp
  also have "\<dots> = (\<lambda>(x', y'). if x' < w \<and> y' < Suc h then swapped p (buf (x', y')) else buf (x', y'))"
    unfolding Suc fold_swap_row by (auto simp add: fun_eq_iff)
  finally show ?case .
qed

lemma swappaper0_eq:
  "swappaper0 buf sz pal p =
     (if p < length pal
      then Inr ((\<lambda>(x, y). if x < fst sz \<and> y < snd sz then swapped p (buf (x, y)) else buf (x, y)),
                (pal[0 := pal ! p])[p := pal ! 0])
      else Inl IndexError)"
  by (simp add: swappaper0_def fold_swap_rows)

lemma swappaper0_twice:
  assumes "swappaper0 buf sz pal p = Inr (buf1, pal1)"
  shows "swappaper0 buf1 sz pal1 p = Inr (buf, pal)"
proof -
  from assms have p: "p < length pal"
    and b1: "buf1 = (\<lambda>(x, y). if x < fst sz \<and> y < snd sz then swapped p (buf (x, y)) else buf (x, y))"
    and p1: "pal1 = (pal[0 := pal ! p])[p := pal ! 0]"
    by (auto simp add: swappaper0_eq split: if_splits)
  have "(\<lambda>(x, y). if x < fst sz \<and> y < snd sz then swapped p (buf1 (x, y)) else buf1 (x, y)) = buf"
    by (auto simp add: b1 fun_eq_iff swapped_twice)
  moreover have "(pal1[0 := pal1 ! p])[p := pal1 ! 0] = pal"
  proof (rule nth_equalityI)
    show "length ((pal1[0 := pal1 ! p])[p := pal1 ! 0]) = length pal" by (simp add: p1)
  next
    fix i assume "i < length ((pal1[0 := pal1 ! p])[p := pal1 ! 0])"
    then have i: "i < length pal" by (simp add: p1)
    have z: "pal \<noteq> []" using p by auto
    show "(pal1[0 := pal1 ! p])[p := pal1 ! 0] ! i = pal ! i"
      using i p z by (simp add: p1 nth_list_update)
  qed
  moreover have "p < length pal1" using p by (simp add: p1)
  ultimately show ?thesis by (simp add: swappaper0_eq)
qed

lemma index_of_nth: "index_of xs v = Inr i \<Longrightarrow> i < length xs \<and> xs ! i = v"
proof -
  assume a: "index_of xs v = Inr i"
  then have v: "v \<in> set xs" and i: "i = length (takeWhile (\<lambda>a. a \<noteq> v) xs)"
    by (auto simp add: index_of_def split: if_splits)
  from v have "takeWhile (\<lambda>a. a \<noteq> v) xs \<noteq> xs"
    by (auto simp add: takeWhile_eq_all_conv)
  then have "length (takeWhile (\<lambda>a. a \<noteq> v) xs) \<noteq> length xs"
    by (metis takeWhile_eq_take take_all_iff order_refl)
  then have "i < length xs" unfolding i
    using length_takeWhile_le[of "\<lambda>a. a \<noteq> v" xs] by simp
  moreover from this have "\<not> (xs ! i \<noteq> v)" unfolding i
    by (rule nth_length_takeWhile)
  ultimately show ?thesis by simp
qed

lemma index_of_zero_head: "xs \<noteq> [] \<Longrightarrow> xs ! 0 = v \<Longrightarrow> index_of xs v = Inr 0"
  by (cases xs) (auto simp add: index_of_def)

lemma normalise_fixed:
  assumes "apal \<noteq> []" "apal ! 0 = 0"
  shows "normalise buf sz apal = Inr (buf, apal)"
  using assms by (simp add: normalise_def index_of_zero_head)

lemma normalise_head:
  assumes "normalise buf sz apal = Inr (buf', apal')"
  shows "apal' \<noteq> [] \<and> apal' ! 0 = 0"
proof (cases "index_of apal 0")
  case (Inl e)
  with assms show ?thesis by (simp add: normalise_def)
next
  case (Inr p)
  then have p: "p < length apal" "apal ! p = 0" using index_of_nth by blast+
  show ?thesis
  proof (cases "p = 0")
    case True
    with Inr assms p show ?thesis by (auto simp add: normalise_def)
  next
    case False
    moreover have "apal \<noteq> []" using p by auto
    ultimately show ?thesis using Inr assms p
      by (auto simp add: normalise_def swappaper0_eq nth_list_update)
  qed
qed

text \<open>
  C7: when the classified palette has the attribute 0 at index 0, the normaliser changes
  neither the palette nor any pixel; whatever the normaliser returns is left unchanged
  by a second run; and applying the swap with index \<open>p\<close> twice gives the first pixel
  store and palette back.
\<close>

theorem normalise_idempotent:
  "(apal \<noteq> [] \<and> apal ! 0 = 0 \<longrightarrow> normalise buf sz apal = Inr (buf, apal))
   \<and> (\<forall>buf' apal'. normalise buf sz apal = Inr (buf', apal')
         \<longrightarrow> normalise buf' sz apal' = Inr (buf', apal'))
   \<and> (\<forall>buf' apal'. swappaper0 buf sz apal p = Inr (buf', apal')
         \<longrightarrow> swappaper0 buf' sz apal' p = Inr (buf, apal))"
  using normalise_fixed normalise_head swappaper0_twice by blast

theorem normalise_idempotent_witness:
  "normalise (\<lambda>(x, y). if x = 0 then 1 else 0) (2, 1) [0, 2]
     = Inr (\<lambda>(x, y). if x = 0 then 1 else 0, [0, 2])
   \<and> swappaper0 (\<lambda>(x, y). if x = 0 then 1 else 0) (2, 1) [2, 0] 1
     = Inr (\<lambda>(x, y). if x < 2 \<and> y < 1 then swapped 1 (if x = 0 then 1 else 0) else (if x = 0 then 1 else 0), [0, 2])
   \<and> swappaper0 (\<lambda>(x, y). if x < 2 \<and> y < 1 then swapped 1 (if x = 0 then 1 else 0) else (if x = 0 then 1 else 0))
        (2, 1) [0, 2] 1
     = Inr (\<lambda>(x, y). if x = 0 then 1 else 0, [2, 0])"
proof -
  let ?b = "\<lambda>(x :: nat, y :: nat). if x = 0 then 1 else (0 :: nat)"
  let ?b' = "\<lambda>(x :: nat, y :: nat). if x < 2 \<and> y < 1 then swapped 1 (if x = 0 then 1 else 0) else (if x = 0 then 1 else (0 :: nat))"
  have a: "[0, 2 :: int] \<noteq> [] \<and> [0, 2 :: int] ! 0 = 0" by simp
  have s: "swappaper0 ?b (2, 1) [2, 0] 1 = Inr (?b', [0, 2])"
    by (simp add: swappaper0_eq fun_eq_iff)
  from a have "normalise ?b (2, 1) [0, 2] = Inr (?b, [0, 2])"
    using normalise_idempotent[of "[0, 2]" ?b "(2, 1)" 1] by blast
  moreover from s have "swappaper0 ?b' (2, 1) [0, 2] 1 = Inr (?b, [2, 0])"
    using normalise_idempotent[of "[2, 0]" ?b "(2, 1)" 1] by blast
  ultimately show ?thesis using s by simp
qed

subsection \<open>A palette without black\<close>

lemma index_of_absent: "v \<notin> set xs \<Longrightarrow> index_of xs v = Inl (ValueError ''0 is not in list'')"
  by (simp add: index_of_def)

lemma index_of_present: "v \<in> set xs \<Longrightarrow> \<exists>i. index_of xs v = Inr i"
  by (simp add: index_of_def)

lemma normalise_absent:
  "0 \<notin> set apal \<Longrightarrow> normalise buf sz apal = Inl (ValueError ''0 is not in list'')"
  by (simp add: normalise_def index_of_absent)

lemma normalise_Inr_present:
  "normalise buf sz apal = Inr r \<Longrightarrow> 0 \<in> set apal"
  by (cases "0 \<in> set apal") (simp_all add: normalise_absent)

lemma im2scr_Inr_stages:
  assumes "im2scr self im = Some (Inr z)"
  shows "\<exists>apal r. length (im_histogram im) - count_list (im_histogram im) 0 \<le> 16
      \<and> pal2attr (zx_preferbright self) (im_getpalette im) (length (im_histogram im)) = Inr apal
      \<and> normalise (im_load im) (im_size im) apal = Inr r"
  using assms
  by (auto simp add: im2scr_def Let_def split: if_splits sum.splits)

text \<open>
  C10: when at most 16 colours are used, the classification succeeds and no classified
  attribute is 0, the conversion ends in the \<^verbatim>\<open>ValueError\<close> of \<^verbatim>\<open>apal.index(0)\<close>, and no
  object state is returned; so a conversion that succeeds has classified some palette
  entry to 0.
\<close>

theorem no_black_entry_aborts:
  "(length (im_histogram im) - count_list (im_histogram im) 0 \<le> 16
      \<and> pal2attr (zx_preferbright self) (im_getpalette im) (length (im_histogram im)) = Inr apal
      \<and> 0 \<notin> set apal
     \<longrightarrow> im2scr self im = Some (Inl (ValueError ''0 is not in list'')))
   \<and> (\<forall>z. im2scr self im = Some (Inr z)
        \<longrightarrow> (\<exists>apal. pal2attr (zx_preferbright self) (im_getpalette im) (length (im_histogram im)) = Inr apal
               \<and> 0 \<in> set apal))"
proof (intro conjI impI allI)
  assume a: "length (im_histogram im) - count_list (im_histogram im) 0 \<le> 16
      \<and> pal2attr (zx_preferbright self) (im_getpalette im) (length (im_histogram im)) = Inr apal
      \<and> 0 \<notin> set apal"
  then show "im2scr self im = Some (Inl (ValueError ''0 is not in list''))"
    by (simp add: im2scr_def Let_def normalise_absent)
next
  fix z assume "im2scr self im = Some (Inr z)"
  from im2scr_Inr_stages[OF this] normalise_Inr_present
  show "\<exists>apal. pal2attr (zx_preferbright self) (im_getpalette im) (length (im_histogram im)) = Inr apal
               \<and> 0 \<in> set apal"
    by blast
qed

theorem no_black_entry_aborts_witness:
  "pal2attr None [255, 255, 255] 1 = Inr [0x47]
   \<and> im2scr (fresh None) white1 = Some (Inl (ValueError ''0 is not in list''))"
proof -
  have p: "pal2attr None [255, 255, 255] 1 = Inr [0x47]"
    by (simp add: pal2attr_def largest.simps classify.simps verifyrgb_def candidates_def
      attr_of_def palette_def BLACKTRESH_def)
  have "length (im_histogram white1) - count_list (im_histogram white1) 0 \<le> 16
      \<and> pal2attr (zx_preferbright (fresh None)) (im_getpalette white1) (length (im_histogram white1)) = Inr [0x47]
      \<and> 0 \<notin> set [0x47 :: int]"
    using p by (simp add: white1_def fresh_def)
  then have "im2scr (fresh None) white1 = Some (Inl (ValueError ''0 is not in list''))"
    using no_black_entry_aborts[of white1 "fresh None" "[0x47]"] by blast
  then show ?thesis using p by simp
qed

subsection \<open>Bytes as lists of bits\<close>

lemma bits_val_Nil [simp]: "bits_val [] = 0"
  by (simp add: bits_val_def)

lemma bits_val_snoc [simp]: "bits_val (bs @ [b]) = 2 * bits_val bs + of_bool b"
  by (simp add: bits_val_def)

lemma bits_val_bounds: "0 \<le> bits_val bs \<and> bits_val bs < 2 ^ length bs"
  by (induction bs rule: rev_induct) auto

lemma bit_bits_val: "bit (bits_val bs) k \<longleftrightarrow> k < length bs \<and> bs ! (length bs - 1 - k)"
proof (induction bs arbitrary: k rule: rev_induct)
  case Nil
  show ?case by simp
next
  case (snoc b bs)
  show ?case
  proof (cases k)
    case 0
    then show ?thesis by (simp add: bit_0)
  next
    case (Suc j)
    have "bit (bits_val (bs @ [b])) (Suc j) = bit (bits_val bs) j"
      by (simp add: bit_Suc)
    then show ?thesis using snoc[of j] Suc
      by (auto simp add: nth_append)
  qed
qed

lemma bits_val_replicate_False: "bits_val (bs @ replicate n False) = bits_val bs * 2 ^ n"
proof (induction n)
  case 0
  show ?case by simp
next
  case (Suc n)
  have "bs @ replicate (Suc n) False = (bs @ replicate n False) @ [False]"
    by (simp add: replicate_append_same)
  then show ?case using Suc by (simp only: bits_val_snoc) simp
qed

lemma enc_Nil [simp]: "enc [] = 1"
  by (simp add: enc_def)

lemma enc_snoc: "enc (p @ [b]) = push_bit 1 (enc p) + of_bool b"
  by (simp add: enc_def push_bit_eq_mult)

lemma enc_bounds: "2 ^ length p \<le> enc p \<and> enc p < 2 * 2 ^ length p"
  using bits_val_bounds[of p] by (simp add: enc_def)

lemma enc_gt_1: "enc p > 1 \<longleftrightarrow> p \<noteq> []"
proof (cases p)
  case Nil
  then show ?thesis by simp
next
  case (Cons a q)
  have a: "(1::int) \<le> 2 ^ length q" by simp
  have b: "2 * 2 ^ length q \<le> enc p" using enc_bounds[of p] Cons by simp
  from a b have "1 < enc p" by linarith
  then show ?thesis using Cons by simp
qed

lemma and_256_small: "0 \<le> (x::int) \<Longrightarrow> x < 256 \<Longrightarrow> x AND 0x100 = 0"
proof -
  assume a: "0 \<le> x" "x < 256"
  have "\<not> bit x 8" using a by (simp add: bit_iff_odd)
  then show ?thesis using and_exp_eq_0_iff_not_bit[of x 8] by simp
qed

lemma and_256_big: "256 \<le> (x::int) \<Longrightarrow> x < 512 \<Longrightarrow> x AND 0x100 \<noteq> 0"
proof -
  assume a: "256 \<le> x" "x < 512"
  have "x div 256 = 1" using a by simp
  then have "bit x 8" by (simp add: bit_iff_odd)
  then show ?thesis using and_exp_eq_0_iff_not_bit[of x 8] by simp
qed

lemma and_255_mod: "(x::int) AND 0xff = x mod 256"
proof -
  have "x AND mask 8 = x mod 2 ^ 8" by (simp only: take_bit_eq_mask[symmetric] take_bit_eq_mod)
  then show ?thesis by (simp add: mask_eq_exp_minus_1)
qed

lemma enc_and_256_short: "length p < 8 \<Longrightarrow> enc p AND 0x100 = 0"
proof -
  assume a: "length p < 8"
  have "(2::int) ^ length p \<le> 2 ^ 7" using a by (intro power_increasing) simp_all
  then show ?thesis using enc_bounds[of p] by (intro and_256_small) simp_all
qed

lemma enc_and_256_full: "length p = 8 \<Longrightarrow> enc p AND 0x100 \<noteq> 0"
  using enc_bounds[of p] by (intro and_256_big) simp_all

lemma enc_and_255_full: "length p = 8 \<Longrightarrow> enc p AND 0xff = bits_val p"
  using bits_val_bounds[of p] by (simp add: and_255_mod enc_def)

subsection \<open>Packing one pixel\<close>

lemma store_at_Nil [simp]: "store_at scr index [] = scr"
  by (simp add: store_at_def)

lemma length_store_at: "index + length vs \<le> length scr \<Longrightarrow> length (store_at scr index vs) = length scr"
  by (simp add: store_at_def)

lemma store_at_snoc:
  assumes "index + length vs < length scr"
  shows "(store_at scr index vs)[index + length vs := v] = store_at scr index (vs @ [v])"
proof -
  have d: "drop (index + length vs) scr = scr ! (index + length vs) # drop (Suc (index + length vs)) scr"
    using assms by (simp add: Cons_nth_drop_Suc)
  have l: "length (take index scr) = index" using assms by simp
  have "(take index scr @ vs @ drop (index + length vs) scr)[index + length vs := v]
        = take index scr @ vs @ (drop (index + length vs) scr)[0 := v]"
    using l by (simp add: list_update_append)
  then show ?thesis unfolding store_at_def using d by simp
qed

lemma store_at_append:
  assumes "index + length vs + length ws \<le> length scr"
  shows "store_at (store_at scr index vs) (index + length vs) ws = store_at scr index (vs @ ws)"
proof -
  have l: "length (take index scr) = index" using assms by simp
  have "take (index + length vs) (take index scr @ vs @ drop (index + length vs) scr) = take index scr @ vs"
    using l by simp
  moreover have "drop (index + length vs + length ws) (take index scr @ vs @ drop (index + length vs) scr)
      = drop (index + length vs + length ws) scr"
    using l by (simp add: add.commute)
  ultimately show ?thesis by (simp add: store_at_def add.assoc)
qed

lemma nth_store_at:
  assumes "index + length vs \<le> length scr" "i < length scr"
  shows "store_at scr index vs ! i =
     (if i < index then scr ! i else if i < index + length vs then vs ! (i - index) else scr ! i)"
  using assms by (auto simp add: store_at_def nth_append min_def)

lemma enc_False: "enc p * 2 = enc (p @ [False])"
  by (simp add: enc_def)

lemma enc_True: "enc (p @ [False]) + 1 = enc (p @ [True])"
  by (simp add: enc_def)

lemma pad_enc:
  "length p \<le> 8 \<Longrightarrow> pad (enc p) = Some (enc (p @ replicate (8 - length p) False))"
proof (induction "8 - length p" arbitrary: p)
  case 0
  then have "length p = 8" by simp
  then show ?case using enc_and_256_full[of p] by (subst pad.simps) simp
next
  case (Suc n)
  then have l: "length p < 8" by simp
  have "pad (enc p) = pad (enc (p @ [False]))"
    using enc_and_256_short[OF l] by (subst pad.simps) (simp add: enc_False)
  also have "\<dots> = Some (enc ((p @ [False]) @ replicate (8 - length (p @ [False])) False))"
    using Suc.hyps(2) l by (intro Suc.hyps(1)) simp_all
  also have "(p @ [False]) @ replicate (8 - length (p @ [False])) False = p @ replicate (8 - length p) False"
  proof -
    have "8 - length p = Suc (8 - length (p @ [False]))" using l by simp
    then show ?thesis by (simp del: replicate_Suc add: replicate_Suc[symmetric])
  qed
  finally show ?case .
qed

lemma pack_pixel_enc:
  assumes "is_ink buf tmp x y = Inr b" "length p < 8"
  shows "pack_pixel buf tmp y x (enc p, scr, index) =
     (if length p = 7
      then (if index < length scr then Inr (1, scr[index := bits_val (p @ [b])], index + 1) else Inl IndexError)
      else Inr (enc (p @ [b]), scr, index))"
proof (cases "length p = 7")
  case True
  then have "length (p @ [b]) = 8" by simp
  from enc_and_256_full[OF this] enc_and_255_full[OF this] True assms(1) show ?thesis
    by (cases b) (simp_all add: pack_pixel_def Let_def enc_False enc_True del: bits_val_snoc)
next
  case False
  then have "length (p @ [b]) < 8" using assms(2) by simp
  from enc_and_256_short[OF this] False assms(1) show ?thesis
    by (cases b) (simp_all add: pack_pixel_def Let_def enc_False enc_True)
qed

lemma pack_x_snoc:
  "pack_x buf tmp y (xs @ [x]) s =
     (case pack_x buf tmp y xs s of Inl e \<Rightarrow> Inl e | Inr s' \<Rightarrow> pack_pixel buf tmp y x s')"
  by (induction xs arbitrary: s) (auto split: sum.splits)

subsection \<open>Packing the pixels of one row\<close>

lemma Suc_div8: "Suc n div 8 = (if n mod 8 = 7 then n div 8 + 1 else n div 8)"
  by presburger

lemma full_chunk_snoc:
  assumes "j < length bs div 8"
  shows "take 8 (drop (8 * j) (bs @ [c])) = take 8 (drop (8 * j) bs)"
proof -
  have "8 * j + 8 \<le> length bs" using assms by presburger
  then show ?thesis by simp
qed

lemma length_full_bytes [simp]: "length (full_bytes bs) = length bs div 8"
  by (simp add: full_bytes_def)

lemma full_bytes_snoc:
  "full_bytes (bs @ [c]) =
     (if length bs mod 8 = 7
      then full_bytes bs @ [bits_val (drop (8 * (length bs div 8)) bs @ [c])]
      else full_bytes bs)"
proof -
  have m: "map (\<lambda>j. bits_val (take 8 (drop (8 * j) (bs @ [c])))) [0..<length bs div 8] = full_bytes bs"
    unfolding full_bytes_def by (rule map_cong) (simp_all add: full_chunk_snoc)
  show ?thesis
  proof (cases "length bs mod 8 = 7")
    case True
    then have d: "Suc (length bs) div 8 = Suc (length bs div 8)" by (simp add: Suc_div8)
    have "8 * (length bs div 8) \<le> length bs" by presburger
    moreover have "length bs - 8 * (length bs div 8) = 7" using True by presburger
    ultimately have "take 8 (drop (8 * (length bs div 8)) (bs @ [c])) = drop (8 * (length bs div 8)) bs @ [c]"
      by simp
    then show ?thesis using True m
      by (simp add: full_bytes_def[of "bs @ [c]"] d del: bits_val_snoc)
  next
    case False
    then have d: "Suc (length bs) div 8 = length bs div 8" by (simp add: Suc_div8)
    show ?thesis using False m by (simp add: full_bytes_def[of "bs @ [c]"] d)
  qed
qed

lemma pack_x_upt:
  assumes ink: "\<forall>x<n. is_ink buf tmp x y = Inr (b x)"
      and idx: "index \<le> length scr"
  shows "pack_x buf tmp y [0..<n] (1, scr, index) =
     (if index + n div 8 \<le> length scr
      then Inr (enc (drop (8 * (n div 8)) (map b [0..<n])), store_at scr index (full_bytes (map b [0..<n])),
                index + n div 8)
      else Inl IndexError)"
  using ink
proof (induction n)
  case 0
  show ?case using idx by (simp add: full_bytes_def)
next
  case (Suc n)
  let ?bs = "map b [0..<n]"
  let ?p = "drop (8 * (n div 8)) ?bs"
  have ih: "pack_x buf tmp y [0..<n] (1, scr, index) =
     (if index + n div 8 \<le> length scr
      then Inr (enc ?p, store_at scr index (full_bytes ?bs), index + n div 8)
      else Inl IndexError)"
    using Suc by simp
  have inkn: "is_ink buf tmp n y = Inr (b n)" using Suc.prems by simp
  have lp: "length ?p = n mod 8" by (simp add: minus_mult_div_eq_mod mult.commute)
  have step: "pack_x buf tmp y [0..<Suc n] (1, scr, index) =
     (case pack_x buf tmp y [0..<n] (1, scr, index) of
        Inl e \<Rightarrow> Inl e | Inr s' \<Rightarrow> pack_pixel buf tmp y n s')"
    by (simp add: pack_x_snoc)
  have bs': "map b [0..<Suc n] = ?bs @ [b n]" by simp
  show ?case
  proof (cases "index + n div 8 \<le> length scr")
    case False
    then have "\<not> index + Suc n div 8 \<le> length scr" by (simp add: Suc_div8)
    then show ?thesis using False ih step by simp
  next
    case True
    have pp: "pack_pixel buf tmp y n (enc ?p, store_at scr index (full_bytes ?bs), index + n div 8) =
       (if length ?p = 7
        then (if index + n div 8 < length (store_at scr index (full_bytes ?bs))
              then Inr (1, (store_at scr index (full_bytes ?bs))[index + n div 8 := bits_val (?p @ [b n])],
                        index + n div 8 + 1)
              else Inl IndexError)
        else Inr (enc (?p @ [b n]), store_at scr index (full_bytes ?bs), index + n div 8))"
      using lp by (intro pack_pixel_enc[OF inkn]) simp
    have ls: "length (store_at scr index (full_bytes ?bs)) = length scr"
      using True by (simp add: length_store_at)
    show ?thesis
    proof (cases "n mod 8 = 7")
      case m7: True
      then have d: "Suc n div 8 = n div 8 + 1" by (simp add: Suc_div8)
      have fb: "full_bytes (?bs @ [b n]) = full_bytes ?bs @ [bits_val (?p @ [b n])]"
        using m7 by (simp add: full_bytes_snoc del: bits_val_snoc)
      have dr: "drop (8 * (Suc n div 8)) (?bs @ [b n]) = []"
        using m7 d by simp
      show ?thesis
      proof (cases "index + n div 8 < length scr")
        case lt: True
        have "(store_at scr index (full_bytes ?bs))[index + n div 8 := bits_val (?p @ [b n])]
            = store_at scr index (full_bytes ?bs @ [bits_val (?p @ [b n])])"
          using lt store_at_snoc[of index "full_bytes ?bs" scr] by simp
        then show ?thesis using True lt m7 lp ih step pp ls d fb dr
          by (simp del: bits_val_snoc upt_Suc add: bs')
      next
        case ge: False
        then show ?thesis using True m7 lp ih step pp ls d
          by (simp del: bits_val_snoc upt_Suc)
      qed
    next
      case m: False
      then have d: "Suc n div 8 = n div 8" by (simp add: Suc_div8)
      have fb: "full_bytes (?bs @ [b n]) = full_bytes ?bs"
        using m by (simp add: full_bytes_snoc)
      have "8 * (n div 8) \<le> n" by presburger
      then have dr: "drop (8 * (Suc n div 8)) (?bs @ [b n]) = ?p @ [b n]"
        using d by simp
      show ?thesis using True m lp ih step pp d fb dr
        by (simp del: bits_val_snoc upt_Suc add: bs')
    qed
  qed
qed

subsection \<open>Packing one row\<close>

lemma length_row_bytes [simp]: "length (row_bytes bs) = (length bs + 7) div 8"
  by (simp add: row_bytes_def)

lemma row_bytes_aligned:
  assumes "length bs mod 8 = 0"
  shows "row_bytes bs = full_bytes bs"
proof -
  have d: "(length bs + 7) div 8 = length bs div 8" using assms by presburger
  have "map (\<lambda>j. bits_val (take 8 (drop (8 * j) (bs @ replicate 7 False)))) [0..<length bs div 8]
      = map (\<lambda>j. bits_val (take 8 (drop (8 * j) bs))) [0..<length bs div 8]"
  proof (rule map_cong[OF refl])
    fix j assume "j \<in> set [0..<length bs div 8]"
    then have "8 * j + 8 \<le> length bs" by simp
    then show "bits_val (take 8 (drop (8 * j) (bs @ replicate 7 False))) = bits_val (take 8 (drop (8 * j) bs))"
      by simp
  qed
  then show ?thesis by (simp add: row_bytes_def full_bytes_def d)
qed

lemma row_bytes_ragged:
  assumes "length bs mod 8 \<noteq> 0"
  shows "row_bytes bs = full_bytes bs
     @ [bits_val (drop (8 * (length bs div 8)) bs @ replicate (8 - length bs mod 8) False)]"
proof -
  have d: "(length bs + 7) div 8 = Suc (length bs div 8)" using assms by presburger
  have a: "map (\<lambda>j. bits_val (take 8 (drop (8 * j) (bs @ replicate 7 False)))) [0..<length bs div 8]
      = map (\<lambda>j. bits_val (take 8 (drop (8 * j) bs))) [0..<length bs div 8]"
  proof (rule map_cong[OF refl])
    fix j assume "j \<in> set [0..<length bs div 8]"
    then have "8 * j + 8 \<le> length bs" by simp
    then show "bits_val (take 8 (drop (8 * j) (bs @ replicate 7 False))) = bits_val (take 8 (drop (8 * j) bs))"
      by simp
  qed
  have le: "8 * (length bs div 8) \<le> length bs" by presburger
  have r: "length bs - 8 * (length bs div 8) = length bs mod 8" by presburger
  have m: "length bs mod 8 < 8" by simp
  have "take 8 (drop (8 * (length bs div 8)) (bs @ replicate 7 False))
      = drop (8 * (length bs div 8)) bs @ replicate (8 - length bs mod 8) False"
    using le r m assms by (simp add: min_def)
  then show ?thesis using a by (simp add: row_bytes_def full_bytes_def d)
qed

lemma ink_bits_eq:
  assumes "\<forall>x<w. is_ink buf tmp x y = Inr (b x)"
  shows "ink_bits buf tmp w y = map b [0..<w]"
  unfolding ink_bits_def using assms by (intro map_cong) simp_all

lemma pack_row_eq:
  assumes ink: "\<forall>x<w. \<exists>b. is_ink buf tmp x y = Inr b"
      and idx: "index \<le> length scr"
  shows "pack_row buf tmp w y (scr, index) =
     (if index + (w + 7) div 8 \<le> length scr
      then Some (Inr (store_at scr index (row_bytes (ink_bits buf tmp w y)), index + (w + 7) div 8))
      else Some (Inl IndexError))"
proof -
  define b where "b x = (case is_ink buf tmp x y of Inr c \<Rightarrow> c | Inl e \<Rightarrow> False)" for x
  have inkb: "\<forall>x<w. is_ink buf tmp x y = Inr (b x)"
    using ink by (auto simp add: b_def)
  let ?bs = "map b [0..<w]"
  let ?p = "drop (8 * (w div 8)) ?bs"
  have ib: "ink_bits buf tmp w y = ?bs" using inkb by (rule ink_bits_eq)
  have px: "pack_x buf tmp y [0..<w] (1, scr, index) =
     (if index + w div 8 \<le> length scr
      then Inr (enc ?p, store_at scr index (full_bytes ?bs), index + w div 8)
      else Inl IndexError)"
    using inkb idx by (rule pack_x_upt)
  have lp: "length ?p = w mod 8" by (simp add: minus_mult_div_eq_mod mult.commute)
  show ?thesis
  proof (cases "w mod 8 = 0")
    case True
    then have d: "(w + 7) div 8 = w div 8" by presburger
    have "?p = []" using lp True by simp
    then have g: "\<not> enc ?p > 1" by (simp add: enc_gt_1)
    have rb: "row_bytes ?bs = full_bytes ?bs" using True by (intro row_bytes_aligned) simp
    show ?thesis using px g by (simp add: pack_row_def ib d rb)
  next
    case False
    then have d: "(w + 7) div 8 = w div 8 + 1" by presburger
    have "?p \<noteq> []" using lp False by auto
    then have g: "enc ?p > 1" by (simp add: enc_gt_1)
    have l8: "length ?p \<le> 8" using lp by simp
    let ?q = "?p @ replicate (8 - length ?p) False"
    have pd: "pad (enc ?p) = Some (enc ?q)" using l8 by (rule pad_enc)
    have lq: "length ?q = 8" using l8 by simp
    have v: "enc ?q AND 0xff = bits_val ?q" using lq by (rule enc_and_255_full)
    have rb: "row_bytes ?bs = full_bytes ?bs @ [bits_val ?q]"
      using False lp row_bytes_ragged[of ?bs] by simp
    show ?thesis
    proof (cases "index + w div 8 < length scr")
      case lt: True
      have ls: "length (store_at scr index (full_bytes ?bs)) = length scr"
        using lt by (simp add: length_store_at)
      have "(store_at scr index (full_bytes ?bs))[index + w div 8 := bits_val ?q]
          = store_at scr index (full_bytes ?bs @ [bits_val ?q])"
        using lt store_at_snoc[of index "full_bytes ?bs" scr] by simp
      then show ?thesis using px g pd v lt ls
        by (simp add: pack_row_def ib d rb)
    next
      case ge: False
      show ?thesis
      proof (cases "index + w div 8 \<le> length scr")
        case True
        then have e: "index + w div 8 = length scr" using ge by simp
        have ls: "length (store_at scr index (full_bytes ?bs)) = length scr"
          using True by (simp add: length_store_at)
        show ?thesis using px g pd v ge True ls e
          by (simp add: pack_row_def ib d rb)
      next
        case False
        then show ?thesis using px by (simp add: pack_row_def d)
      qed
    qed
  qed
qed

subsection \<open>Packing all rows\<close>

lemma length_concat_uniform:
  assumes "\<forall>y\<in>set ys. length (f y) = n"
  shows "length (concat (map f ys)) = length ys * n"
  using assms by (induction ys) simp_all

lemma nth_concat_uniform:
  assumes "\<forall>y\<in>set ys. length (f y) = n" "k < length ys" "j < n"
  shows "concat (map f ys) ! (k * n + j) = f (ys ! k) ! j"
  using assms
proof (induction ys arbitrary: k)
  case Nil
  then show ?case by simp
next
  case (Cons y ys)
  show ?case
  proof (cases k)
    case 0
    then show ?thesis using Cons.prems by (simp add: nth_append)
  next
    case (Suc k')
    have "\<not> Suc k' * n + j < n" by simp
    moreover have "Suc k' * n + j - n = k' * n + j" by simp
    ultimately show ?thesis using Cons Suc by (simp add: nth_append del: mult_Suc)
  qed
qed

lemma length_ink_bits [simp]: "length (ink_bits buf tmp w y) = w"
  by (simp add: ink_bits_def)

lemma pack_y_eq:
  assumes ink: "\<forall>y\<in>set ys. \<forall>x<w. \<exists>b. is_ink buf tmp x y = Inr b"
      and idx: "index \<le> length scr"
  shows "pack_y buf tmp w ys (scr, index) =
     (if index + length ys * ((w + 7) div 8) \<le> length scr
      then Some (Inr (store_at scr index (concat (map (\<lambda>y. row_bytes (ink_bits buf tmp w y)) ys)),
                      index + length ys * ((w + 7) div 8)))
      else Some (Inl IndexError))"
  using ink idx
proof (induction ys arbitrary: scr index)
  case Nil
  then show ?case by simp
next
  case (Cons y ys)
  let ?wb = "(w + 7) div 8"
  let ?rb = "row_bytes (ink_bits buf tmp w y)"
  let ?rest = "concat (map (\<lambda>y. row_bytes (ink_bits buf tmp w y)) ys)"
  have lrb: "length ?rb = ?wb" by simp
  have lrest: "length ?rest = length ys * ?wb"
    by (rule length_concat_uniform) simp
  have row: "pack_row buf tmp w y (scr, index) =
     (if index + ?wb \<le> length scr
      then Some (Inr (store_at scr index ?rb, index + ?wb))
      else Some (Inl IndexError))"
    using Cons.prems by (intro pack_row_eq) simp_all
  show ?case
  proof (cases "index + ?wb \<le> length scr")
    case False
    then have "\<not> index + length (y # ys) * ?wb \<le> length scr" by simp
    then show ?thesis using row False by simp
  next
    case True
    have ls: "length (store_at scr index ?rb) = length scr"
      using True by (simp add: length_store_at)
    have ih: "pack_y buf tmp w ys (store_at scr index ?rb, index + ?wb) =
     (if index + ?wb + length ys * ?wb \<le> length (store_at scr index ?rb)
      then Some (Inr (store_at (store_at scr index ?rb) (index + ?wb) ?rest,
                      index + ?wb + length ys * ?wb))
      else Some (Inl IndexError))"
      using Cons.prems True ls by (intro Cons.IH) simp_all
    show ?thesis
    proof (cases "index + ?wb + length ys * ?wb \<le> length scr")
      case t2: True
      have "store_at (store_at scr index ?rb) (index + length ?rb) ?rest = store_at scr index (?rb @ ?rest)"
        using t2 lrest by (intro store_at_append) simp
      then show ?thesis using row True ih ls t2 by (simp add: add.assoc)
    next
      case f2: False
      then show ?thesis using row True ih ls by (simp add: add.assoc)
    qed
  qed
qed

subsection \<open>The colours of every cell\<close>

lemma cells_x_eq:
  "x mod 8 = 0 \<Longrightarrow> cells_x buf sz y h x tmp =
     (\<lambda>k. if snd k = y div 8 \<and> x div 8 \<le> fst k \<and> 8 * fst k < fst sz
          then Some (selectcolors buf (8 * fst k) y (cell_w (fst sz) (8 * fst k)) h)
          else tmp k)"
proof (induction buf sz y h x tmp rule: cells_x.induct)
  case (1 buf sz y h x tmp)
  show ?case
  proof (cases "x < fst sz")
    case False
    then have "\<And>k. x div 8 \<le> fst k \<Longrightarrow> \<not> 8 * fst k < fst sz"
      using 1(2) by presburger
    then show ?thesis using False
      by (subst cells_x.simps) (auto simp add: fun_eq_iff)
  next
    case True
    let ?w = "if x + 8 < fst sz then 8 else fst sz - x"
    let ?t = "tmp((drop_bit 3 x, drop_bit 3 y) \<mapsto> selectcolors buf x y ?w h)"
    have m: "(x + 8) mod 8 = 0" using 1(2) by presburger
    have ih: "cells_x buf sz y h (x + 8) ?t =
      (\<lambda>k. if snd k = y div 8 \<and> (x + 8) div 8 \<le> fst k \<and> 8 * fst k < fst sz
          then Some (selectcolors buf (8 * fst k) y (cell_w (fst sz) (8 * fst k)) h)
          else ?t k)"
      using 1(1)[OF True refl m] .
    have x8: "8 * (x div 8) = x" using 1(2) by presburger
    have d: "(x + 8) div 8 = Suc (x div 8)" by presburger
    have "cells_x buf sz y h x tmp = cells_x buf sz y h (x + 8) ?t"
      using True by (subst cells_x.simps) (simp add: Let_def)
    also have "\<dots> = (\<lambda>k. if snd k = y div 8 \<and> x div 8 \<le> fst k \<and> 8 * fst k < fst sz
          then Some (selectcolors buf (8 * fst k) y (cell_w (fst sz) (8 * fst k)) h)
          else tmp k)"
      unfolding ih
    proof (rule ext)
      fix k :: "nat \<times> nat"
      show "(if snd k = y div 8 \<and> (x + 8) div 8 \<le> fst k \<and> 8 * fst k < fst sz
          then Some (selectcolors buf (8 * fst k) y (cell_w (fst sz) (8 * fst k)) h)
          else ?t k) =
         (if snd k = y div 8 \<and> x div 8 \<le> fst k \<and> 8 * fst k < fst sz
          then Some (selectcolors buf (8 * fst k) y (cell_w (fst sz) (8 * fst k)) h)
          else tmp k)"
      proof (cases "k = (x div 8, y div 8)")
        case keq: True
        then show ?thesis using True x8
          by (simp add: d drop_bit_eq_div cell_w_def)
      next
        case kne: False
        then have "snd k = y div 8 \<Longrightarrow> x div 8 \<le> fst k \<Longrightarrow> Suc (x div 8) \<le> fst k"
          by (cases k) auto
        then show ?thesis using kne
          by (cases k) (auto simp add: d drop_bit_eq_div)
      qed
    qed
    finally show ?thesis .
  qed
qed

lemma cells_y_eq:
  "y mod 8 = 0 \<Longrightarrow> cells_y buf sz y tmp =
     (\<lambda>k. if y div 8 \<le> snd k \<and> 8 * snd k < snd sz \<and> 8 * fst k < fst sz
          then Some (cell_colors buf sz k)
          else tmp k)"
proof (induction buf sz y tmp rule: cells_y.induct)
  case (1 buf sz y tmp)
  show ?case
  proof (cases "y < snd sz")
    case False
    then have "\<And>k. y div 8 \<le> snd k \<Longrightarrow> \<not> 8 * snd k < snd sz"
      using 1(2) by presburger
    then show ?thesis using False
      by (subst cells_y.simps) (auto simp add: fun_eq_iff)
  next
    case True
    let ?h = "if y + 8 < snd sz then 8 else snd sz - y"
    let ?t = "cells_x buf sz y ?h 0 tmp"
    have m: "(y + 8) mod 8 = 0" using 1(2) by presburger
    have ih: "cells_y buf sz (y + 8) ?t =
      (\<lambda>k. if (y + 8) div 8 \<le> snd k \<and> 8 * snd k < snd sz \<and> 8 * fst k < fst sz
          then Some (cell_colors buf sz k)
          else ?t k)"
      using 1(1)[OF True refl m] .
    have t: "?t = (\<lambda>k. if snd k = y div 8 \<and> 8 * fst k < fst sz
          then Some (selectcolors buf (8 * fst k) y (cell_w (fst sz) (8 * fst k)) ?h)
          else tmp k)"
      by (simp add: cells_x_eq)
    have y8: "8 * (y div 8) = y" using 1(2) by presburger
    have d: "(y + 8) div 8 = Suc (y div 8)" by presburger
    have "cells_y buf sz y tmp = cells_y buf sz (y + 8) ?t"
      using True by (subst cells_y.simps) (simp add: Let_def)
    also have "\<dots> = (\<lambda>k. if y div 8 \<le> snd k \<and> 8 * snd k < snd sz \<and> 8 * fst k < fst sz
          then Some (cell_colors buf sz k)
          else tmp k)"
      unfolding ih
    proof (rule ext)
      fix k :: "nat \<times> nat"
      show "(if (y + 8) div 8 \<le> snd k \<and> 8 * snd k < snd sz \<and> 8 * fst k < fst sz
          then Some (cell_colors buf sz k)
          else ?t k) =
         (if y div 8 \<le> snd k \<and> 8 * snd k < snd sz \<and> 8 * fst k < fst sz
          then Some (cell_colors buf sz k)
          else tmp k)"
      proof (cases "snd k = y div 8")
        case keq: True
        then have "8 * snd k = y" using y8 by simp
        then show ?thesis using True keq unfolding t
          by (simp add: d cell_colors_def cell_w_def)
      next
        case kne: False
        then have "y div 8 \<le> snd k \<longleftrightarrow> Suc (y div 8) \<le> snd k" by auto
        then show ?thesis using kne unfolding t by (simp add: d)
      qed
    qed
    finally show ?thesis .
  qed
qed

lemma cells_eq:
  "cells_y buf sz 0 Map.empty =
     (\<lambda>k. if 8 * fst k < fst sz \<and> 8 * snd k < snd sz then Some (cell_colors buf sz k) else None)"
  by (auto simp add: cells_y_eq fun_eq_iff)

lemma is_ink_cells:
  assumes "x < fst sz" "y < snd sz"
  shows "is_ink buf (cells_y buf sz 0 Map.empty) x y
     = Inr (buf (x, y) \<noteq> 0 \<and> buf (x, y) \<noteq> fst (cell_colors buf sz (x div 8, y div 8)))"
proof -
  have "8 * (x div 8) < fst sz" "8 * (y div 8) < snd sz" using assms by presburger+
  then show ?thesis
    by (simp add: is_ink_def cells_eq Let_def drop_bit_eq_div)
qed

subsection \<open>Encoding the attributes\<close>

lemma attr_cell_eq:
  "attr_cell preferbright apal tmp y x (attr, index) =
     (case cell_attr preferbright apal tmp y x of
        Inl e \<Rightarrow> Inl e
      | Inr v \<Rightarrow> if index < length attr then Inr (attr[index := v], index + 1) else Inl IndexError)"
  by (simp add: attr_cell_def cell_attr_def split: option.splits)

lemma store_at_Cons:
  assumes "index < length attr"
  shows "store_at (attr[index := v]) (Suc index) vs = store_at attr index (v # vs)"
proof -
  have "take (Suc index) (attr[index := v]) = take index attr @ [v]"
    using assms by (simp add: take_Suc_conv_app_nth)
  moreover have "drop (Suc index + length vs) (attr[index := v]) = drop (Suc index + length vs) attr"
    by simp
  ultimately show ?thesis by (simp add: store_at_def)
qed

lemma attr_x_Inr:
  assumes "attr_x preferbright apal tmp y xs (attr, index) = Inr (attr', index')"
      and "index \<le> length attr"
  shows "(\<forall>x\<in>set xs. \<exists>v. cell_attr preferbright apal tmp y x = Inr v)
     \<and> index + length xs \<le> length attr
     \<and> index' = index + length xs
     \<and> attr' = store_at attr index (map (\<lambda>x. byte_of (cell_attr preferbright apal tmp y x)) xs)"
  using assms
proof (induction xs arbitrary: attr index)
  case Nil
  then show ?case by simp
next
  case (Cons x xs)
  from Cons.prems(1) obtain v where v: "cell_attr preferbright apal tmp y x = Inr v"
    and lt: "index < length attr"
    and rest: "attr_x preferbright apal tmp y xs (attr[index := v], index + 1) = Inr (attr', index')"
    by (auto simp add: attr_cell_eq split: sum.splits if_splits)
  have "index + 1 \<le> length (attr[index := v])" using lt by simp
  from Cons.IH[OF rest this]
  have ih: "(\<forall>x\<in>set xs. \<exists>v. cell_attr preferbright apal tmp y x = Inr v)"
    "index + 1 + length xs \<le> length attr" "index' = index + 1 + length xs"
    "attr' = store_at (attr[index := v]) (index + 1) (map (\<lambda>x. byte_of (cell_attr preferbright apal tmp y x)) xs)"
    by simp_all
  show ?case using v ih lt by (simp add: store_at_Cons byte_of_def)
qed

lemma attr_x_succeeds:
  assumes "\<forall>x\<in>set xs. \<exists>v. cell_attr preferbright apal tmp y x = Inr v"
      and "index + length xs \<le> length attr"
  shows "attr_x preferbright apal tmp y xs (attr, index)
     = Inr (store_at attr index (map (\<lambda>x. byte_of (cell_attr preferbright apal tmp y x)) xs),
            index + length xs)"
  using assms
proof (induction xs arbitrary: attr index)
  case Nil
  then show ?case by simp
next
  case (Cons x xs)
  from Cons.prems(1) obtain v where v: "cell_attr preferbright apal tmp y x = Inr v" by auto
  have lt: "index < length attr" using Cons.prems(2) by simp
  have "attr_x preferbright apal tmp y xs (attr[index := v], index + 1)
     = Inr (store_at (attr[index := v]) (index + 1) (map (\<lambda>x. byte_of (cell_attr preferbright apal tmp y x)) xs),
            index + 1 + length xs)"
    using Cons.prems by (intro Cons.IH) simp_all
  then show ?case using v lt by (simp add: attr_cell_eq store_at_Cons byte_of_def)
qed

lemma length_attr_row [simp]: "length (attr_row preferbright apal tmp w y) = w"
  by (simp add: attr_row_def)

lemma attr_y_Inr:
  assumes "attr_y preferbright apal tmp w ys (attr, index) = Inr (attr', index')"
      and "index \<le> length attr"
  shows "(\<forall>y\<in>set ys. \<forall>x<w. \<exists>v. cell_attr preferbright apal tmp y x = Inr v)
     \<and> index + length ys * w \<le> length attr
     \<and> index' = index + length ys * w
     \<and> attr' = store_at attr index (concat (map (attr_row preferbright apal tmp w) ys))"
  using assms
proof (induction ys arbitrary: attr index)
  case Nil
  then show ?case by simp
next
  case (Cons y ys)
  from Cons.prems(1) obtain a1 i1 where
    row: "attr_x preferbright apal tmp y [0..<w] (attr, index) = Inr (a1, i1)"
    and rest: "attr_y preferbright apal tmp w ys (a1, i1) = Inr (attr', index')"
    by (auto split: sum.splits)
  from attr_x_Inr[OF row Cons.prems(2)]
  have r: "\<forall>x<w. \<exists>v. cell_attr preferbright apal tmp y x = Inr v"
    "index + w \<le> length attr" "i1 = index + w"
    "a1 = store_at attr index (attr_row preferbright apal tmp w y)"
    by (simp_all add: attr_row_def)
  have l1: "length a1 = length attr" using r by (simp add: length_store_at)
  then have "i1 \<le> length a1" using r by simp
  from Cons.IH[OF rest this]
  have ih: "\<forall>y\<in>set ys. \<forall>x<w. \<exists>v. cell_attr preferbright apal tmp y x = Inr v"
    "i1 + length ys * w \<le> length a1" "index' = i1 + length ys * w"
    "attr' = store_at a1 i1 (concat (map (attr_row preferbright apal tmp w) ys))"
    by simp_all
  have lc: "length (concat (map (attr_row preferbright apal tmp w) ys)) = length ys * w"
    by (rule length_concat_uniform) simp
  have "store_at (store_at attr index (attr_row preferbright apal tmp w y))
          (index + length (attr_row preferbright apal tmp w y))
          (concat (map (attr_row preferbright apal tmp w) ys))
      = store_at attr index (attr_row preferbright apal tmp w y @ concat (map (attr_row preferbright apal tmp w) ys))"
    using ih(2) r l1 lc by (intro store_at_append) simp
  then show ?case using r ih l1 by (simp add: add.assoc)
qed

lemma attr_y_succeeds:
  assumes "\<forall>y\<in>set ys. \<forall>x<w. \<exists>v. cell_attr preferbright apal tmp y x = Inr v"
      and "index + length ys * w \<le> length attr"
  shows "\<exists>attr'. attr_y preferbright apal tmp w ys (attr, index) = Inr (attr', index + length ys * w)"
  using assms
proof (induction ys arbitrary: attr index)
  case Nil
  then show ?case by simp
next
  case (Cons y ys)
  let ?a1 = "store_at attr index (map (\<lambda>x. byte_of (cell_attr preferbright apal tmp y x)) [0..<w])"
  have le: "index + w \<le> length attr" using Cons.prems(2) by simp
  have row: "attr_x preferbright apal tmp y [0..<w] (attr, index) = Inr (?a1, index + length [0..<w])"
    using Cons.prems le by (intro attr_x_succeeds) simp_all
  have l1: "length ?a1 = length attr" using le by (simp add: length_store_at)
  have "\<exists>attr'. attr_y preferbright apal tmp w ys (?a1, index + w) = Inr (attr', index + w + length ys * w)"
    using Cons.prems l1 by (intro Cons.IH) (simp_all add: add.assoc)
  then show ?case using row by (auto simp add: add.assoc)
qed

subsection \<open>The conversion in closed form\<close>

lemma pack_y_cells:
  "pack_y buf (cells_y buf sz 0 Map.empty) (fst sz) [0..<snd sz] (scr, 0) =
     (if snd sz * ((fst sz + 7) div 8) \<le> length scr
      then Some (Inr (store_at scr 0 (bitmap_of buf sz), snd sz * ((fst sz + 7) div 8)))
      else Some (Inl IndexError))"
proof -
  have "\<forall>y\<in>set [0..<snd sz]. \<forall>x<fst sz. \<exists>b. is_ink buf (cells_y buf sz 0 Map.empty) x y = Inr b"
    by (simp add: is_ink_cells)
  from pack_y_eq[OF this, of 0 scr] show ?thesis
    by (simp add: bitmap_of_def)
qed

lemma length_bitmap_of: "length (bitmap_of buf sz) = snd sz * ((fst sz + 7) div 8)"
  unfolding bitmap_of_def by (subst length_concat_uniform[where n = "(fst sz + 7) div 8"]) simp_all

lemma length_attrs_of:
  "length (attrs_of preferbright apal buf sz) = (snd sz + 7) div 8 * ((fst sz + 7) div 8)"
  unfolding attrs_of_def by (subst length_concat_uniform[where n = "(fst sz + 7) div 8"]) simp_all

lemma octets_eq: "octets n = (n + 7) div 8"
  unfolding octets_def drop_bit_eq_div by simp presburger

lemma final_sizes:
  assumes "0 < fst sz" "0 < snd sz"
  shows "last_x sz = Some (fst sz - 1)" "last_y sz = snd sz - 1"
  using assms by (simp_all add: last_x_def last_y_def)

lemma im2scr_eq:
  assumes "0 < fst (im_size im)" "0 < snd (im_size im)"
  shows "im2scr self im =
     (if length (im_histogram im) - count_list (im_histogram im) 0 > 16
      then Some (Inl (ZXException ''Picture uses more than 16 colors''))
      else
        (case pal2attr (zx_preferbright self) (im_getpalette im) (length (im_histogram im)) of
           Inl e \<Rightarrow> Some (Inl e)
         | Inr apal0 \<Rightarrow>
        (case normalise (im_load im) (im_size im) apal0 of
           Inl e \<Rightarrow> Some (Inl e)
         | Inr (buf, apal) \<Rightarrow>
             if snd (im_size im) * ((fst (im_size im) + 7) div 8) \<le> length (zx_scr self) then
               (case attr_y (zx_preferbright self) apal (cells_y buf (im_size im) 0 Map.empty)
                        ((fst (im_size im) + 7) div 8) [0..<(snd (im_size im) + 7) div 8] (zx_attr self, 0) of
                  Inl e \<Rightarrow> Some (Inl e)
                | Inr (attr, index') \<Rightarrow>
                    Some (Inr (self\<lparr>zx_scr := store_at (zx_scr self) 0 (bitmap_of buf (im_size im)),
                                   zx_scrSize := snd (im_size im) * ((fst (im_size im) + 7) div 8),
                                   zx_w := (fst (im_size im) + 7) div 8, zx_h := snd (im_size im),
                                   zx_attr := attr, zx_attrSize := index'\<rparr>)))
             else Some (Inl IndexError))))"
proof -
  have s: "snd (im_size im) - 1 + 1 = snd (im_size im)" "fst (im_size im) - 1 + 1 = fst (im_size im)"
    using assms by simp_all
  show ?thesis
    unfolding im2scr_def Let_def pack_y_cells final_sizes[OF assms] option.case s octets_eq
    by (simp split: sum.splits prod.splits)
qed

subsection \<open>Counting the colours of a cell\<close>

lemma tally_x_fold:
  "tally_x buf y xend x c = fold (\<lambda>p c. bump c p) (map (\<lambda>x. buf (x, y)) [x..<xend]) c"
proof (induction buf y xend x c rule: tally_x.induct)
  case (1 buf y xend x c)
  show ?case
  proof (cases "x < xend")
    case True
    then show ?thesis using 1[OF True]
      by (subst tally_x.simps) (simp add: upt_conv_Cons)
  next
    case False
    then show ?thesis by (subst tally_x.simps) simp
  qed
qed

lemma tally_y_fold:
  "tally_y buf stax w yend y c =
     fold (\<lambda>p c. bump c p) (concat (map (\<lambda>y. map (\<lambda>x. buf (x, y)) [stax..<stax + w]) [y..<yend])) c"
proof (induction buf stax w yend y c rule: tally_y.induct)
  case (1 buf stax w yend y c)
  show ?case
  proof (cases "y < yend")
    case True
    then show ?thesis using 1[OF True]
      by (subst tally_y.simps) (simp add: upt_conv_Cons tally_x_fold)
  next
    case False
    then show ?thesis by (subst tally_y.simps) simp
  qed
qed

lemma selectcolors_fold:
  "selectcolors buf stax stay w h = pick (fold (\<lambda>p c. bump c p) (cell_pixels buf stax stay w h) [])"
  by (simp add: selectcolors_def tally_y_fold cell_pixels_def)

lemma counted_Nil: "counted [] []"
  by (simp add: counted_def)

lemma counted_bump:
  assumes "counted ps c"
  shows "counted (ps @ [p]) (bump c p)"
proof -
  from assms have d: "distinct (map fst c)"
    and s: "set c = (\<lambda>k. (k, count_list ps k)) ` set ps"
    by (simp_all add: counted_def)
  have keys: "fst ` set c = set ps" unfolding s by force
  show ?thesis
  proof (cases "map_of c p")
    case None
    then have np: "p \<notin> set ps" using keys by (simp add: map_of_eq_None_iff)
    then have c0: "count_list ps p = 0" by simp
    have b: "bump c p = c @ [(p, 1)]" using None by (simp add: bump_def)
    have "distinct (map fst (c @ [(p, 1)]))" using d np keys by auto
    moreover have "set (c @ [(p, 1)]) = (\<lambda>k. (k, count_list (ps @ [p]) k)) ` set (ps @ [p])"
    proof -
      have "(\<lambda>k. (k, count_list (ps @ [p]) k)) ` set ps = (\<lambda>k. (k, count_list ps k)) ` set ps"
        using np by (intro image_cong) auto
      moreover have "(p, count_list (ps @ [p]) p) = (p, 1)" using c0 by simp
      ultimately have "(\<lambda>k. (k, count_list (ps @ [p]) k)) ` set (ps @ [p]) = set c \<union> {(p, 1)}"
        unfolding s by (simp add: image_Un del: count_list_append)
      then show ?thesis by simp
    qed
    ultimately show ?thesis unfolding b counted_def by simp
  next
    case (Some n)
    then have mem: "(p, n) \<in> set c" by (rule map_of_SomeD)
    then have n: "n = count_list ps p" and pin: "p \<in> set ps" unfolding s by auto
    let ?g = "\<lambda>(k, v). if k = p then (k, n + 1) else (k, v)"
    have b: "bump c p = map ?g c" using Some by (simp add: bump_def)
    have f: "map fst (map ?g c) = map fst c" by (induction c) auto
    have dd: "distinct (map fst (map ?g c))" using d by (simp only: f)
    have "set (map ?g c) = (\<lambda>k. (k, count_list (ps @ [p]) k)) ` set (ps @ [p])"
    proof -
      have "set (map ?g c) = ?g ` (\<lambda>k. (k, count_list ps k)) ` set ps" unfolding s[symmetric] by simp
      also have "\<dots> = (\<lambda>k. (k, count_list (ps @ [p]) k)) ` set ps"
        unfolding image_image by (rule image_cong) (auto simp add: n)
      also have "set ps = set (ps @ [p])" using pin by auto
      finally show ?thesis .
    qed
    with dd show ?thesis unfolding b counted_def by (intro conjI)
  qed
qed

lemma counted_fold: "counted ps (fold (\<lambda>p c. bump c p) ps [])"
proof (induction ps rule: rev_induct)
  case Nil
  show ?case by (simp add: counted_Nil)
next
  case (snoc p ps)
  then show ?case by (simp add: counted_bump)
qed

subsection \<open>Choosing paper and ink\<close>

lemma most_frequent_unique:
  assumes "inj_on (count_list ps) S" "most_frequent ps S m" "most_frequent ps S m'"
  shows "m = m'"
proof -
  from assms(2,3) have "count_list ps m = count_list ps m'" "m \<in> S" "m' \<in> S"
    by (auto simp add: most_frequent_def intro: order_antisym)
  with assms(1) show ?thesis by (auto dest: inj_onD)
qed

lemma pick_spec:
  assumes "counted ps c"
  shows "(nonzero_colors ps = {} \<longrightarrow> pick c = (0, 0))
    \<and> (nonzero_colors ps \<noteq> {} \<longrightarrow>
         (\<exists>m. most_frequent ps (nonzero_colors ps) m
            \<and> (0 \<in> set ps \<longrightarrow> pick c = (0, m))
            \<and> (0 \<notin> set ps \<longrightarrow>
                 (card (nonzero_colors ps) = 1 \<longrightarrow> pick c = (m, m))
               \<and> (card (nonzero_colors ps) \<noteq> 1 \<longrightarrow>
                    (\<exists>s. most_frequent ps (nonzero_colors ps - {m}) s \<and> pick c = (m, s))))))"
proof -
  let ?K = "nonzero_colors ps"
  let ?f = "\<lambda>(k :: nat, v :: nat). - int v"
  let ?c' = "filter (\<lambda>(k, v). k \<noteq> 0) c"
  define L where "L = sort_key ?f ?c'"
  define colors where "colors = map fst L"
  from assms have d: "distinct (map fst c)"
    and s: "set c = (\<lambda>k. (k, count_list ps k)) ` set ps"
    by (simp_all add: counted_def)
  have keys: "fst ` set c = set ps" unfolding s by force
  have p0: "map_of c 0 = None \<longleftrightarrow> 0 \<notin> set ps"
    using keys by (simp add: map_of_eq_None_iff)
  have sL: "set L = (\<lambda>k. (k, count_list ps k)) ` ?K"
    using s by (auto simp add: nonzero_colors_def L_def)
  have dc: "distinct c" using d by (simp add: distinct_map)
  have inj: "inj_on fst (set L)" unfolding sL by (auto simp add: inj_on_def)
  have dL: "distinct L" using dc by (simp add: L_def)
  have dk: "distinct colors" using dL inj by (simp add: distinct_map colors_def)
  have kL: "set colors = ?K" unfolding colors_def set_map sL by force
  have cardK: "card ?K = length colors"
    using distinct_card[OF dk] kL by simp
  have srt: "sorted (map ?f L)" unfolding L_def by (rule sorted_sort_key)
  have pk: "pick c =
     (if length colors = 0 then (0, 0)
      else if map_of c 0 = None then
        (if length colors = 1 then (colors ! 0, colors ! 0) else (colors ! 0, colors ! 1))
      else (0, colors ! 0))"
    by (simp only: pick_def Let_def colors_def L_def)
  have val: "\<And>e. e \<in> set L \<Longrightarrow> snd e = count_list ps (fst e) \<and> fst e \<in> ?K"
    unfolding sL by auto
  show ?thesis
  proof (cases L)
    case Nil
    then have "?K = {}" "length colors = 0" using kL by (simp_all add: colors_def)
    then show ?thesis using pk by simp
  next
    case (Cons e0 rest)
    then have ne: "?K \<noteq> {}" using kL by (auto simp add: colors_def)
    have e0in: "e0 \<in> set L" using Cons by simp
    let ?m = "fst e0"
    have mK: "?m \<in> ?K" using val[OF e0in] by simp
    have top: "\<forall>k\<in>?K. count_list ps k \<le> count_list ps ?m"
    proof
      fix k assume "k \<in> ?K"
      then have kin: "(k, count_list ps k) \<in> set L" unfolding sL by simp
      have "?f e0 \<le> ?f (k, count_list ps k)"
      proof (cases "(k, count_list ps k) = e0")
        case True
        then show ?thesis by simp
      next
        case False
        then have "(k, count_list ps k) \<in> set rest" using kin Cons by simp
        then show ?thesis using srt unfolding Cons by auto
      qed
      then show "count_list ps k \<le> count_list ps ?m"
        using val[OF e0in] by (cases e0) simp
    qed
    have mf: "most_frequent ps ?K ?m" using mK top by (simp add: most_frequent_def)
    have c0: "colors ! 0 = ?m" using Cons by (simp add: colors_def)
    show ?thesis
    proof (cases rest)
      case Nil
      then have l1: "length colors = 1" using Cons by (simp add: colors_def)
      then have "card ?K = 1" using cardK by simp
      then show ?thesis using ne mf pk c0 l1 p0 by auto
    next
      case (Cons e1 rest')
      note Cons1 = \<open>L = e0 # rest\<close>
      have L2: "L = e0 # e1 # rest'" using Cons1 Cons by simp
      then have l2: "length colors \<noteq> 0" "length colors \<noteq> 1" by (simp_all add: colors_def)
      have ck: "card ?K \<noteq> 1" using cardK l2 by simp
      have e1in: "e1 \<in> set L" using L2 by simp
      let ?s = "fst e1"
      have c1: "colors ! 1 = ?s" using L2 by (simp add: colors_def)
      have ne01: "?s \<noteq> ?m" using dk unfolding colors_def L2 by auto
      have sK: "?s \<in> ?K - {?m}" using val[OF e1in] ne01 by simp
      have top1: "\<forall>k\<in>?K - {?m}. count_list ps k \<le> count_list ps ?s"
      proof
        fix k assume k: "k \<in> ?K - {?m}"
        then have kin: "(k, count_list ps k) \<in> set L" unfolding sL by simp
        have kne: "(k, count_list ps k) \<noteq> e0" using k by auto
        have "?f e1 \<le> ?f (k, count_list ps k)"
        proof (cases "(k, count_list ps k) = e1")
          case True
          then show ?thesis by simp
        next
          case False
          then have "(k, count_list ps k) \<in> set rest'" using kin kne L2 by simp
          then show ?thesis using srt unfolding L2 by auto
        qed
        then show "count_list ps k \<le> count_list ps ?s"
          using val[OF e1in] by (cases e1) simp
      qed
      have ms: "most_frequent ps (?K - {?m}) ?s" using sK top1 by (simp add: most_frequent_def)
      show ?thesis using ne mf ms pk c0 c1 l2 ck p0 by auto
    qed
  qed
qed

subsection \<open>The selection policy\<close>

lemma selectcolors_spec:
  "(nonzero_colors (cell_pixels buf stax stay w h) = {} \<longrightarrow> selectcolors buf stax stay w h = (0, 0))
    \<and> (nonzero_colors (cell_pixels buf stax stay w h) \<noteq> {} \<longrightarrow>
         (\<exists>m. most_frequent (cell_pixels buf stax stay w h) (nonzero_colors (cell_pixels buf stax stay w h)) m
            \<and> (0 \<in> set (cell_pixels buf stax stay w h) \<longrightarrow> selectcolors buf stax stay w h = (0, m))
            \<and> (0 \<notin> set (cell_pixels buf stax stay w h) \<longrightarrow>
                 (card (nonzero_colors (cell_pixels buf stax stay w h)) = 1 \<longrightarrow> selectcolors buf stax stay w h = (m, m))
               \<and> (card (nonzero_colors (cell_pixels buf stax stay w h)) \<noteq> 1 \<longrightarrow>
                    (\<exists>s. most_frequent (cell_pixels buf stax stay w h)
                            (nonzero_colors (cell_pixels buf stax stay w h) - {m}) s
                       \<and> selectcolors buf stax stay w h = (m, s))))))"
  unfolding selectcolors_fold by (rule pick_spec) (rule counted_fold)

lemma selectcolors_range:
  "fst (selectcolors buf stax stay w h) \<in> insert 0 (set (cell_pixels buf stax stay w h))
   \<and> snd (selectcolors buf stax stay w h) \<in> insert 0 (set (cell_pixels buf stax stay w h))"
proof -
  let ?P = "cell_pixels buf stax stay w h"
  have sub: "\<And>m S. most_frequent ?P S m \<Longrightarrow> S \<subseteq> nonzero_colors ?P \<Longrightarrow> m \<in> set ?P"
    by (auto simp add: most_frequent_def nonzero_colors_def)
  show ?thesis
  proof (cases "nonzero_colors ?P = {}")
    case True
    then show ?thesis using selectcolors_spec[of buf stax stay w h] by simp
  next
    case False
    then obtain m where m: "most_frequent ?P (nonzero_colors ?P) m"
      and z: "0 \<in> set ?P \<longrightarrow> selectcolors buf stax stay w h = (0, m)"
      and nz: "0 \<notin> set ?P \<longrightarrow>
                 (card (nonzero_colors ?P) = 1 \<longrightarrow> selectcolors buf stax stay w h = (m, m))
               \<and> (card (nonzero_colors ?P) \<noteq> 1 \<longrightarrow>
                    (\<exists>s. most_frequent ?P (nonzero_colors ?P - {m}) s
                       \<and> selectcolors buf stax stay w h = (m, s)))"
      using selectcolors_spec[of buf stax stay w h] by blast
    have mP: "m \<in> set ?P" using sub[OF m] by simp
    show ?thesis
    proof (cases "0 \<in> set ?P")
      case True
      then show ?thesis using z mP by simp
    next
      case nzp: False
      show ?thesis
      proof (cases "card (nonzero_colors ?P) = 1")
        case True
        then show ?thesis using nz nzp mP by simp
      next
        case False
        then obtain s where s: "most_frequent ?P (nonzero_colors ?P - {m}) s"
          and r: "selectcolors buf stax stay w h = (m, s)"
          using nz nzp by blast
        have "s \<in> set ?P" using sub[OF s] by blast
        then show ?thesis using r mP by simp
      qed
    qed
  qed
qed

text \<open>
  C3: for a cell whose colours other than 0 all have different pixel counts,
  \<open>selectcolors\<close> returns \<open>(0, 0)\<close> when the cell has no colour other than 0; \<open>(c, c)\<close> when
  \<open>c\<close> is its only colour other than 0 and it has no pixel 0; \<open>(0, c)\<close> when \<open>c\<close> is its only
  colour other than 0 and it has pixels 0; the most frequent and the second most
  frequent colour when it has two or more colours other than 0 and no pixel 0; and 0
  with the most frequent colour when it has two or more and pixels 0. A most frequent
  colour exists whenever there is a colour other than 0.
\<close>

theorem selectcolors_policy:
  assumes "inj_on (count_list (cell_pixels buf stax stay w h)) (nonzero_colors (cell_pixels buf stax stay w h))"
  shows "(nonzero_colors (cell_pixels buf stax stay w h) = {} \<longrightarrow> selectcolors buf stax stay w h = (0, 0))
    \<and> (\<forall>c. nonzero_colors (cell_pixels buf stax stay w h) = {c} \<and> 0 \<notin> set (cell_pixels buf stax stay w h)
           \<longrightarrow> selectcolors buf stax stay w h = (c, c))
    \<and> (\<forall>c. nonzero_colors (cell_pixels buf stax stay w h) = {c} \<and> 0 \<in> set (cell_pixels buf stax stay w h)
           \<longrightarrow> selectcolors buf stax stay w h = (0, c))
    \<and> (\<forall>m s. 2 \<le> card (nonzero_colors (cell_pixels buf stax stay w h))
           \<and> 0 \<notin> set (cell_pixels buf stax stay w h)
           \<and> most_frequent (cell_pixels buf stax stay w h) (nonzero_colors (cell_pixels buf stax stay w h)) m
           \<and> most_frequent (cell_pixels buf stax stay w h) (nonzero_colors (cell_pixels buf stax stay w h) - {m}) s
           \<longrightarrow> selectcolors buf stax stay w h = (m, s))
    \<and> (\<forall>m. 2 \<le> card (nonzero_colors (cell_pixels buf stax stay w h))
           \<and> 0 \<in> set (cell_pixels buf stax stay w h)
           \<and> most_frequent (cell_pixels buf stax stay w h) (nonzero_colors (cell_pixels buf stax stay w h)) m
           \<longrightarrow> selectcolors buf stax stay w h = (0, m))
    \<and> (nonzero_colors (cell_pixels buf stax stay w h) \<noteq> {}
           \<longrightarrow> (\<exists>m. most_frequent (cell_pixels buf stax stay w h) (nonzero_colors (cell_pixels buf stax stay w h)) m))"
proof -
  let ?P = "cell_pixels buf stax stay w h"
  let ?K = "nonzero_colors ?P"
  let ?r = "selectcolors buf stax stay w h"
  note spec = selectcolors_spec[of buf stax stay w h]
  have uniq: "\<And>m m'. most_frequent ?P ?K m \<Longrightarrow> most_frequent ?P ?K m' \<Longrightarrow> m = m'"
    using assms by (rule most_frequent_unique)
  have uniq2: "\<And>m s s'. most_frequent ?P (?K - {m}) s \<Longrightarrow> most_frequent ?P (?K - {m}) s' \<Longrightarrow> s = s'"
  proof -
    fix m s s'
    have "inj_on (count_list ?P) (?K - {m})" using assms by (rule inj_on_diff)
    then show "most_frequent ?P (?K - {m}) s \<Longrightarrow> most_frequent ?P (?K - {m}) s' \<Longrightarrow> s = s'"
      by (rule most_frequent_unique)
  qed
  have one: "\<And>c m. ?K = {c} \<Longrightarrow> most_frequent ?P ?K m \<Longrightarrow> m = c"
    by (simp add: most_frequent_def)
  have c1: "?K = {} \<longrightarrow> ?r = (0, 0)" using spec by blast
  have c2: "\<forall>c. ?K = {c} \<and> 0 \<notin> set ?P \<longrightarrow> ?r = (c, c)"
  proof (intro allI impI)
    fix c assume a: "?K = {c} \<and> 0 \<notin> set ?P"
    then have "?K \<noteq> {}" "card ?K = 1" by simp_all
    with spec a obtain m where "most_frequent ?P ?K m" "?r = (m, m)" by blast
    with one a show "?r = (c, c)" by blast
  qed
  have c3: "\<forall>c. ?K = {c} \<and> 0 \<in> set ?P \<longrightarrow> ?r = (0, c)"
  proof (intro allI impI)
    fix c assume a: "?K = {c} \<and> 0 \<in> set ?P"
    then have "?K \<noteq> {}" by simp
    with spec a obtain m where "most_frequent ?P ?K m" "?r = (0, m)" by blast
    with one a show "?r = (0, c)" by blast
  qed
  have c4: "\<forall>m s. 2 \<le> card ?K \<and> 0 \<notin> set ?P \<and> most_frequent ?P ?K m \<and> most_frequent ?P (?K - {m}) s
           \<longrightarrow> ?r = (m, s)"
  proof (intro allI impI)
    fix m s assume a: "2 \<le> card ?K \<and> 0 \<notin> set ?P \<and> most_frequent ?P ?K m \<and> most_frequent ?P (?K - {m}) s"
    then have "?K \<noteq> {}" "card ?K \<noteq> 1" by auto
    with spec a obtain m' s' where m': "most_frequent ?P ?K m'"
      and s': "most_frequent ?P (?K - {m'}) s'" and r: "?r = (m', s')" by blast
    have "m' = m" using uniq m' a by blast
    moreover from this have "s' = s" using uniq2 s' a by blast
    ultimately show "?r = (m, s)" using r by simp
  qed
  have c5: "\<forall>m. 2 \<le> card ?K \<and> 0 \<in> set ?P \<and> most_frequent ?P ?K m \<longrightarrow> ?r = (0, m)"
  proof (intro allI impI)
    fix m assume a: "2 \<le> card ?K \<and> 0 \<in> set ?P \<and> most_frequent ?P ?K m"
    then have "?K \<noteq> {}" by auto
    with spec a obtain m' where m': "most_frequent ?P ?K m'" and r: "?r = (0, m')" by blast
    have "m' = m" using uniq m' a by blast
    then show "?r = (0, m)" using r by simp
  qed
  have c6: "?K \<noteq> {} \<longrightarrow> (\<exists>m. most_frequent ?P ?K m)" using spec by blast
  from c1 c2 c3 c4 c5 c6 show ?thesis by (intro conjI)
qed

lemma corner_pixels: "cell_pixels corner 0 0 2 2 = [1, 1, 1, 2]"
  by (simp add: cell_pixels_def corner_def upt_rec)

theorem selectcolors_policy_witness:
  "cell_pixels corner 0 0 2 2 = [1, 1, 1, 2] \<and> selectcolors corner 0 0 2 2 = (1, 2)"
proof -
  let ?P = "cell_pixels corner 0 0 2 2"
  have K: "nonzero_colors ?P = {1, 2}" by (auto simp add: corner_pixels nonzero_colors_def)
  have i: "inj_on (count_list ?P) (nonzero_colors ?P)" unfolding K by (simp add: corner_pixels)
  have a: "2 \<le> card (nonzero_colors ?P) \<and> 0 \<notin> set ?P
       \<and> most_frequent ?P (nonzero_colors ?P) 1
       \<and> most_frequent ?P (nonzero_colors ?P - {1}) 2"
    unfolding K by (simp add: corner_pixels most_frequent_def)
  have "selectcolors corner 0 0 2 2 = (1, 2)"
    using selectcolors_policy[OF i] a by blast
  then show ?thesis by (simp add: corner_pixels)
qed

end
